theory Spec2Isabelle
  imports Complex_Main "HOL-Library.Word"
begin

section \<open>JavaScript values\<close>

text \<open>
  The backend (\<^verbatim>\<open>src/backend/index.js\<close>) is JavaScript. A JavaScript string is a
  sequence of UTF-16 code units: \<^verbatim>\<open>length\<close> counts them and \<^verbatim>\<open><\<close> compares
  strings code unit by code unit. String literals of the program are ASCII; \<open>js\<close>
  turns such a literal into its code units.
\<close>

type_synonym jsstring = "16 word list"

definition js :: "string \<Rightarrow> jsstring" where
  "js s = map of_char s"

text \<open>
  A JavaScript number is a double. The program only compares numbers with the
  constants 0, 3 and 9 and asks whether they are integers; these tests are exact on
  doubles, so a finite number is modelled by the rational it denotes (the doubles are
  a subset; \<^verbatim>\<open>-0\<close> and \<^verbatim>\<open>0\<close>, which no test of the program tells apart, are both
  \<open>Fin 0\<close>). \<open>NaN\<close> arises from \<^verbatim>\<open>parseInt\<close>. An integer that \<^verbatim>\<open>parseInt\<close> reads
  becomes a number by rounding, see \<open>number_value\<close> below.
\<close>

datatype jsnum = NaN | Fin rat | PosInf | NegInf

text \<open>
  The values a card can be: what \<^verbatim>\<open>JSON.parse\<close> delivers. An object is the list
  of its own properties in enumeration order (the order \<^verbatim>\<open>Object.values\<close> follows),
  with distinct keys.
\<close>

datatype jsval =
    JNull
  | JBool bool
  | JNum jsnum
  | JStr jsstring
  | JArr "jsval list"
  | JObj "(jsstring \<times> jsval) list"

section \<open>Built-in operations used by the program\<close>

subsection \<open>Numbers\<close>

text \<open>\<^verbatim>\<open>x < q\<close> and \<^verbatim>\<open>x > q\<close> for a finite constant \<open>q\<close>: false on \<open>NaN\<close>.\<close>

fun num_less :: "jsnum \<Rightarrow> rat \<Rightarrow> bool" where
  "num_less NaN q = False"
| "num_less (Fin p) q = (p < q)"
| "num_less PosInf q = False"
| "num_less NegInf q = True"

fun num_greater :: "jsnum \<Rightarrow> rat \<Rightarrow> bool" where
  "num_greater NaN q = False"
| "num_greater (Fin p) q = (q < p)"
| "num_greater PosInf q = True"
| "num_greater NegInf q = False"

text \<open>\<^verbatim>\<open>Number.isInteger\<close>: a finite number without fractional part.\<close>

fun isInteger :: "jsnum \<Rightarrow> bool" where
  "isInteger (Fin p) = (of_int (floor p) = p)"
| "isInteger _ = False"

text \<open>
  The number value of an integer: the nearest double, ties to the even significand,
  and infinity from \<open>2 ^ 1024 - 2 ^ 970\<close> on. Below \<open>2 ^ 53\<close> (9007199254740992)
  every integer is a double. Above, a double has 53 significant bits: with \<open>sh\<close>
  the number of bits beyond 53, a positive integer is \<open>q * 2 ^ sh + r\<close> and rounds
  to \<open>q * 2 ^ sh\<close> or \<open>(q + 1) * 2 ^ sh\<close>. \<open>bitlen\<close> counts the bits of a positive
  integer, \<open>round_int\<close> rounds one that is not negative.
\<close>

function bitlen :: "int \<Rightarrow> nat" where
  "bitlen n = (if n \<le> 0 then 0 else Suc (bitlen (n div 2)))"
  by pat_completeness auto
termination
  by (relation "measure nat") auto

definition round_int :: "int \<Rightarrow> jsnum" where
  "round_int m =
     (if m < 9007199254740992 then Fin (of_int m)
      else
        (let sh = bitlen m - 53;
             q = m div 2 ^ sh;
             r = m mod 2 ^ sh;
             half = 2 ^ (sh - 1);
             q' = (if half < r \<or> (r = half \<and> odd q) then q + 1 else q);
             v = q' * 2 ^ sh
         in if 2 ^ 1024 \<le> v then PosInf else Fin (of_int v)))"

fun negate :: "jsnum \<Rightarrow> jsnum" where
  "negate NaN = NaN"
| "negate (Fin p) = Fin (- p)"
| "negate PosInf = NegInf"
| "negate NegInf = PosInf"

definition number_value :: "int \<Rightarrow> jsnum" where
  "number_value k = (if k < 0 then negate (round_int (- k)) else round_int k)"

subsection \<open>Strings\<close>

text \<open>\<^verbatim>\<open>s < t\<close> on strings: lexicographic on code units, a proper prefix is smaller.\<close>

fun str_less :: "jsstring \<Rightarrow> jsstring \<Rightarrow> bool" where
  "str_less [] [] = False"
| "str_less [] (d # t) = True"
| "str_less (c # s) [] = False"
| "str_less (c # s) (d # t) = (c < d \<or> (c = d \<and> str_less s t))"

text \<open>
  \<^verbatim>\<open>s.split(',')\<close>: the pieces between commas; a string without comma (the empty
  one too) gives one piece.
\<close>

fun split_comma :: "jsstring \<Rightarrow> jsstring list" where
  "split_comma [] = [[]]"
| "split_comma (c # cs) =
     (if c = 0x2C then [] # split_comma cs
      else (case split_comma cs of
              [] \<Rightarrow> [[c]]
            | p # ps \<Rightarrow> (c # p) # ps))"

text \<open>
  White space and line terminators of ECMAScript, which \<^verbatim>\<open>trim\<close>, \<^verbatim>\<open>parseInt\<close>
  and the conversion of a string to a number strip.
\<close>

definition is_ws :: "16 word \<Rightarrow> bool" where
  "is_ws c \<longleftrightarrow>
     c = 0x09 \<or> c = 0x0A \<or> c = 0x0B \<or> c = 0x0C \<or> c = 0x0D \<or> c = 0x20 \<or>
     c = 0xA0 \<or> c = 0x1680 \<or> (0x2000 \<le> c \<and> c \<le> 0x200A) \<or>
     c = 0x2028 \<or> c = 0x2029 \<or> c = 0x202F \<or> c = 0x205F \<or> c = 0x3000 \<or>
     c = 0xFEFF"

definition trim_start :: "jsstring \<Rightarrow> jsstring" where
  "trim_start s = dropWhile is_ws s"

definition trim :: "jsstring \<Rightarrow> jsstring" where
  "trim s = rev (dropWhile is_ws (rev (dropWhile is_ws s)))"

definition is_digit :: "16 word \<Rightarrow> bool" where
  "is_digit c \<longleftrightarrow> 0x30 \<le> c \<and> c \<le> 0x39"

definition is_hex_digit :: "16 word \<Rightarrow> bool" where
  "is_hex_digit c \<longleftrightarrow>
     is_digit c \<or> (0x41 \<le> c \<and> c \<le> 0x46) \<or> (0x61 \<le> c \<and> c \<le> 0x66)"

definition is_octal_digit :: "16 word \<Rightarrow> bool" where
  "is_octal_digit c \<longleftrightarrow> 0x30 \<le> c \<and> c \<le> 0x37"

definition is_binary_digit :: "16 word \<Rightarrow> bool" where
  "is_binary_digit c \<longleftrightarrow> c = 0x30 \<or> c = 0x31"

text \<open>
  The grammar \<^verbatim>\<open>StrNumericLiteral\<close> of ECMAScript, which decides whether the
  conversion of a string to a number gives a number or \<^verbatim>\<open>NaN\<close>.
  \<open>exponent_opt\<close> is an optional \<^verbatim>\<open>ExponentPart\<close>: nothing, or \<^verbatim>\<open>e\<close>/\<^verbatim>\<open>E\<close>, an
  optional sign and at least one digit.
\<close>

definition exponent_opt :: "jsstring \<Rightarrow> bool" where
  "exponent_opt s =
     (case s of
        [] \<Rightarrow> True
      | c # r \<Rightarrow>
          (c = 0x65 \<or> c = 0x45) \<and>
          (case r of
             [] \<Rightarrow> False
           | d # r' \<Rightarrow>
               if d = 0x2B \<or> d = 0x2D then r' \<noteq> [] \<and> list_all is_digit r'
               else list_all is_digit r))"

text \<open>
  \<^verbatim>\<open>StrUnsignedDecimalLiteral\<close>: \<^verbatim>\<open>Infinity\<close>, digits with an optional fraction,
  or a fraction alone, each with an optional exponent.
\<close>

definition unsigned_decimal :: "jsstring \<Rightarrow> bool" where
  "unsigned_decimal s =
     (s = js ''Infinity'' \<or>
      (let ip = takeWhile is_digit s; r = dropWhile is_digit s in
       case r of
         [] \<Rightarrow> ip \<noteq> []
       | c # r' \<Rightarrow>
           if c = 0x2E then
             (let fp = takeWhile is_digit r'; r2 = dropWhile is_digit r' in
              (ip \<noteq> [] \<or> fp \<noteq> []) \<and> exponent_opt r2)
           else ip \<noteq> [] \<and> exponent_opt r))"

text \<open>\<^verbatim>\<open>NonDecimalIntegerLiteral\<close>: \<^verbatim>\<open>0x\<close>, \<^verbatim>\<open>0o\<close> or \<^verbatim>\<open>0b\<close> and digits, unsigned.\<close>

definition non_decimal :: "jsstring \<Rightarrow> bool" where
  "non_decimal s =
     (case s of
        z # p # ds \<Rightarrow>
          z = 0x30 \<and> ds \<noteq> [] \<and>
          (((p = 0x78 \<or> p = 0x58) \<and> list_all is_hex_digit ds) \<or>
           ((p = 0x6F \<or> p = 0x4F) \<and> list_all is_octal_digit ds) \<or>
           ((p = 0x62 \<or> p = 0x42) \<and> list_all is_binary_digit ds))
      | _ \<Rightarrow> False)"

definition str_numeric_literal :: "jsstring \<Rightarrow> bool" where
  "str_numeric_literal s =
     (non_decimal s \<or>
      (case s of
         [] \<Rightarrow> False
       | c # r \<Rightarrow>
           if c = 0x2B \<or> c = 0x2D then unsigned_decimal r
           else unsigned_decimal s))"

text \<open>
  \<^verbatim>\<open>isNaN(s)\<close> on a string converts it to a number first: white space is stripped
  at both ends, the empty string is 0, a \<^verbatim>\<open>StrNumericLiteral\<close> is its value and
  everything else is \<^verbatim>\<open>NaN\<close>.
\<close>

definition isNaN_str :: "jsstring \<Rightarrow> bool" where
  "isNaN_str s = (let t = trim s in t \<noteq> [] \<and> \<not> str_numeric_literal t)"

text \<open>
  \<^verbatim>\<open>parseInt(s, 10)\<close>: leading white space is skipped, then an optional sign, then
  the longest run of decimal digits is read; no digit gives \<^verbatim>\<open>NaN\<close>. What follows
  the digits is ignored. The result is the number value of the signed integer the
  digits denote: exact below \<open>2 ^ 53\<close>, rounded above, infinite from 310 significant
  digits on. ECMAScript lets an implementation replace the digits after the 20th
  significant one by zeros before it rounds; the model rounds the integer as written.
\<close>

definition digit_value :: "16 word \<Rightarrow> int" where
  "digit_value c = uint c - 48"

definition digits_value :: "jsstring \<Rightarrow> int" where
  "digits_value ds = foldl (\<lambda>a c. 10 * a + digit_value c) 0 ds"

definition parseInt10 :: "jsstring \<Rightarrow> jsnum" where
  "parseInt10 s =
     (let t = trim_start s;
          (sign, u) =
            (case t of
               [] \<Rightarrow> (1, [])
             | c # r \<Rightarrow>
                 if c = 0x2D then (- 1, r)
                 else if c = 0x2B then (1, r)
                 else (1, t));
          ds = takeWhile is_digit u
      in if ds = [] then NaN else number_value (sign * digits_value ds))"

section \<open>The program state\<close>

text \<open>
  Every card object carries an array \<^verbatim>\<open>errors\<close>. The validator copies a card with
  \<^verbatim>\<open>{ ...card }\<close>, which copies the reference to that array, and then pushes onto
  \<^verbatim>\<open>card.errors\<close>; history entries hold the same reference again. Arrays of
  messages therefore live in a store, addressed by their position, and a card holds
  the address. \<^verbatim>\<open>[]\<close> and \<^verbatim>\<open>['...']\<close> allocate a new array; \<^verbatim>\<open>push\<close> changes one
  in place.
\<close>

type_synonym ref = nat
type_synonym store = "string list list"

definition new_array :: "string list \<Rightarrow> store \<Rightarrow> ref \<times> store" where
  "new_array xs h = (length h, h @ [xs])"

definition push :: "ref \<Rightarrow> string \<Rightarrow> store \<Rightarrow> store" where
  "push r x h = h[r := h ! r @ [x]]"

text \<open>
  A card as \<^verbatim>\<open>preProcess\<close> builds it: \<^verbatim>\<open>{ id, alphabet, number, errors }\<close>.
  \<open>None\<close> in \<open>alphabet\<close> and \<open>number\<close> is \<^verbatim>\<open>null\<close>; \<open>None\<close> in \<open>errors\<close> is a
  missing property, which the validator tests with \<^verbatim>\<open>!card.errors\<close>.
\<close>

record card =
  id :: nat
  alphabet :: "jsstring option"
  number :: "jsnum option"
  errors :: "ref option"

text \<open>
  An entry of \<^verbatim>\<open>cardHistory\<close>, as \<^verbatim>\<open>saveHistory\<close> pushes it:
  \<^verbatim>\<open>{ deckId, cardId, alphabet, number, errors }\<close>. The last three fields have
  the names of the card's fields in the source and a prefix here. \<open>errors\<close> is the
  reference the card holds, not a copy of the array. An identifier is opaque: it is
  modelled by the number of the call of \<^verbatim>\<open>uuidv1\<close> that returned it, see below.
\<close>

type_synonym uuid = nat

record entry =
  deckId :: uuid
  cardId :: nat
  entry_alphabet :: "jsstring option"
  entry_number :: "jsnum option"
  entry_errors :: "ref option"

text \<open>
  The state of the server: the store, the global \<^verbatim>\<open>cardHistory\<close> (line 123) and the
  number of identifiers \<^verbatim>\<open>uuidv1\<close> has issued so far.
\<close>

record state =
  heap :: store
  cardHistory :: "entry list"
  uuids_issued :: nat

section \<open>preProcess\<close>

text \<open>\<^verbatim>\<open>!alphabet\<close>: \<^verbatim>\<open>null\<close> and the empty string are falsy.\<close>

definition not_alphabet :: "jsstring option \<Rightarrow> bool" where
  "not_alphabet a \<longleftrightarrow> a = None \<or> a = Some []"

text \<open>
  The body of \<^verbatim>\<open>parts.forEach\<close> (lines 217-223), on the two local variables
  \<^verbatim>\<open>alphabet\<close> and \<^verbatim>\<open>number\<close>, here \<open>a\<close> and \<open>n\<close>.
\<close>

fun scan_part :: "jsstring \<Rightarrow> jsstring option \<times> jsnum option \<Rightarrow> jsstring option \<times> jsnum option" where
  "scan_part part (a, n) =
     (if not_alphabet a \<and> isNaN_str part then (Some part, n)
      else if n = None \<and> \<not> isNaN_str part then (a, Some (parseInt10 part))
      else (a, n))"

text \<open>
  The body of \<^verbatim>\<open>card.forEach\<close> (lines 235-241) and of
  \<^verbatim>\<open>Object.values(card).forEach\<close> (lines 253-259), which are the same:
  \<^verbatim>\<open>if (!alphabet && typeof item === 'string') ... else if (number === null &&
  typeof item === 'number') ...\<close>. The two \<^verbatim>\<open>typeof\<close> tests exclude each other, so
  the model looks at the kind of \<open>item\<close> first; a value that is neither a string nor a
  number changes nothing.
\<close>

fun scan_item :: "jsval \<Rightarrow> jsstring option \<times> jsnum option \<Rightarrow> jsstring option \<times> jsnum option" where
  "scan_item item (a, n) =
     (case item of
        JStr s \<Rightarrow> if not_alphabet a then (Some s, n) else (a, n)
      | JNum x \<Rightarrow> if n = None then (a, Some x) else (a, n)
      | _ \<Rightarrow> (a, n))"

text \<open>
  The end of each branch: \<^verbatim>\<open>if (!alphabet || number === null)\<close> the card is
  returned with both fields \<^verbatim>\<open>null\<close> and the branch's message, otherwise with the
  fields found and no error. Either way a new \<^verbatim>\<open>errors\<close> array is allocated.
\<close>

definition finish :: "nat \<Rightarrow> string \<Rightarrow> jsstring option \<times> jsnum option \<Rightarrow> store \<Rightarrow> card \<times> store" where
  "finish i msg found h =
     (case found of (a, n) \<Rightarrow>
        if not_alphabet a \<or> n = None then
          (let (r, h') = new_array [msg] h
           in (\<lparr>id = i, alphabet = None, number = None, errors = Some r\<rparr>, h'))
        else
          (let (r, h') = new_array [] h
           in (\<lparr>id = i, alphabet = a, number = n, errors = Some r\<rparr>, h')))"

fun preProcess :: "jsval \<Rightarrow> nat \<Rightarrow> store \<Rightarrow> card \<times> store" where
  "preProcess (JStr s) i h =
     finish i ''Invalid format for input string.''
       (fold scan_part (map trim (split_comma s)) (None, None)) h"
| "preProcess (JArr items) i h =
     finish i ''Invalid format for input array.'' (fold scan_item items (None, None)) h"
| "preProcess (JObj props) i h =
     finish i ''Invalid format for input object.''
       (fold scan_item (map snd props) (None, None)) h"
| "preProcess v i h =
     (let (r, h') = new_array [''Unknown input type and format.''] h
      in (\<lparr>id = i, alphabet = None, number = None, errors = Some r\<rparr>, h'))"

section \<open>validateCards\<close>

text \<open>
  \<^verbatim>\<open>if (!card.errors) card.errors = []; card.errors.push(msg)\<close>: the message goes
  onto the array of the original card, which gets a new one if it has none.
\<close>

definition push_error :: "string \<Rightarrow> card \<times> store \<Rightarrow> card \<times> store" where
  "push_error msg cs =
     (case cs of (c, h) \<Rightarrow>
        (case errors c of
           None \<Rightarrow> (let (r, h') = new_array [] h in (c\<lparr>errors := Some r\<rparr>, push r msg h'))
         | Some r \<Rightarrow> (c, push r msg h)))"

text \<open>
  The three conditions of lines 288, 295 and 302. \<^verbatim>\<open>typeof\<close> cannot fail on a
  field that is not \<^verbatim>\<open>null\<close>: \<^verbatim>\<open>preProcess\<close> stores a string and a number only.
\<close>

definition alphabet_invalid :: "jsstring option \<Rightarrow> bool" where
  "alphabet_invalid a =
     (case a of
        None \<Rightarrow> True
      | Some s \<Rightarrow> length s \<noteq> 1 \<or> str_less s (js ''A'') \<or> str_less (js ''Z'') s)"

definition number_invalid :: "jsnum option \<Rightarrow> bool" where
  "number_invalid n =
     (case n of
        None \<Rightarrow> True
      | Some x \<Rightarrow> num_less x 0 \<or> num_greater x 9 \<or> \<not> isInteger x)"

definition pairing_invalid :: "jsstring option \<Rightarrow> jsnum option \<Rightarrow> bool" where
  "pairing_invalid a n \<longleftrightarrow> a = Some (js ''D'') \<and> n \<noteq> Some (Fin 3)"

text \<open>The three messages of the validator (lines 290, 297 and 304).\<close>

definition letter_msg :: string where
  "letter_msg = ''Card must have a single Alphabet A-Z.''"

definition digit_msg :: string where
  "digit_msg = ''Number must be between 0-9.''"

definition pairing_msg :: string where
  \<open>pairing_msg = ''Card "D" must have the number 3.''\<close>

text \<open>
  The callback of \<^verbatim>\<open>cards.map\<close> (lines 278-309). \<open>validationResult\<close> is the copy
  taken before the checks; the checks read and change \<open>card\<close> and the store, and the
  copy is returned.
\<close>

definition validate_card :: "card \<Rightarrow> store \<Rightarrow> card \<times> store" where
  "validate_card c h =
     (if alphabet c = None \<and> number c = None then (c, h)
      else
        (let validationResult = c;
             s1 = (if alphabet_invalid (alphabet c)
                   then push_error letter_msg (c, h)
                   else (c, h));
             s2 = (if number_invalid (number (fst s1))
                   then push_error digit_msg s1
                   else s1);
             s3 = (if pairing_invalid (alphabet (fst s2)) (number (fst s2))
                   then push_error pairing_msg s2
                   else s2)
         in (validationResult, snd s3)))"

fun validateCards :: "card list \<Rightarrow> store \<Rightarrow> card list \<times> store" where
  "validateCards [] h = ([], h)"
| "validateCards (c # cs) h =
     (let (v, h1) = validate_card c h;
          (vs, h2) = validateCards cs h1
      in (v # vs, h2))"

section \<open>saveHistory\<close>

text \<open>
  Modelled from the spec: \<^verbatim>\<open>uuidv1\<close> of the package \<^verbatim>\<open>uuid\<close>, imported at line 93,
  whose code is not among the sources. The spec (section 3) has the batch identifier
  an opaque unique identifier, assigned once per batch (section 5): a call returns an
  identifier that no earlier call has returned. The model numbers the calls: a call
  returns the number of calls before it and counts itself.
\<close>

definition uuidv1 :: "nat \<Rightarrow> uuid \<times> nat" where
  "uuidv1 issued = (issued, Suc issued)"

text \<open>
  \<^verbatim>\<open>saveHistory\<close> (lines 191-208) takes one identifier from \<^verbatim>\<open>uuidv1()\<close> and pushes
  one entry per card. It is an \<^verbatim>\<open>async\<close> function that waits for a mutex nobody
  else holds: its body runs as soon as the handler that called it has returned,
  before the next request is taken up, so a request and the recording of its cards
  are one step of the state.
\<close>

definition history_entry :: "uuid \<Rightarrow> card \<Rightarrow> entry" where
  "history_entry d c =
     \<lparr>deckId = d, cardId = id c, entry_alphabet = alphabet c,
      entry_number = number c, entry_errors = errors c\<rparr>"

definition saveHistory :: "card list \<Rightarrow> state \<Rightarrow> state" where
  "saveHistory scannedCards st =
     (let (d, issued) = uuidv1 (uuids_issued st)
      in st\<lparr>cardHistory :=
              fold (\<lambda>c acc. acc @ [history_entry d c]) scannedCards (cardHistory st),
            uuids_issued := issued\<rparr>)"

section \<open>The handler of POST /cards\<close>

text \<open>
  A request as the handler sees it: a JSON body that \<^verbatim>\<open>express.json\<close> has parsed,
  a text body with the outcome of \<^verbatim>\<open>JSON.parse\<close> (\<open>None\<close> when it throws), or any
  other content type.
\<close>

datatype request = JsonBody jsval | TextBody "jsval option" | OtherBody

text \<open>
  The response: the status and the object passed to \<^verbatim>\<open>res.json\<close>, a field that is
  not set being \<open>None\<close>.
\<close>

record response =
  status :: nat
  error :: "string option"
  validationResult :: "string option"
  discardCount :: "nat option"
  invalidCards :: "card list option"

definition error_response :: "string \<Rightarrow> response" where
  "error_response msg =
     \<lparr>status = 400, error = Some msg, validationResult = None,
      discardCount = None, invalidCards = None\<rparr>"

definition result_response :: "nat \<Rightarrow> string \<Rightarrow> response" where
  "result_response code msg =
     \<lparr>status = code, error = None, validationResult = Some msg,
      discardCount = None, invalidCards = None\<rparr>"

text \<open>\<^verbatim>\<open>req.body.cards\<close>: the property of an object, \<^verbatim>\<open>undefined\<close> elsewhere.\<close>

definition body_cards :: "jsval \<Rightarrow> jsval option" where
  "body_cards b = (case b of JObj props \<Rightarrow> map_of props (js ''cards'') | _ \<Rightarrow> None)"

text \<open>\<^verbatim>\<open>cards.map((card, index) => preProcess(card, index))\<close>, from index \<open>i\<close> on.\<close>

fun map_preProcess :: "jsval list \<Rightarrow> nat \<Rightarrow> store \<Rightarrow> card list \<times> store" where
  "map_preProcess [] i h = ([], h)"
| "map_preProcess (v # vs) i h =
     (let (c, h1) = preProcess v i h;
          (cs, h2) = map_preProcess vs (Suc i) h1
      in (c # cs, h2))"

text \<open>The filter of line 168: \<^verbatim>\<open>card.errors && card.errors.length > 0\<close>.\<close>

definition has_errors :: "store \<Rightarrow> card \<Rightarrow> bool" where
  "has_errors h c = (case errors c of None \<Rightarrow> False | Some r \<Rightarrow> length (h ! r) > 0)"

text \<open>
  Lines 148-184: what the handler does once \<^verbatim>\<open>cards\<close> is bound. The calls of
  the logger are left out: they write to the console and a file and change nothing
  the handler reads.
\<close>

definition handle_cards :: "jsval option \<Rightarrow> state \<Rightarrow> response \<times> state" where
  "handle_cards cards st =
     (case cards of
        Some (JArr cs) \<Rightarrow>
          if length cs \<noteq> 20 then
            (result_response 400 ''The deck must have 20 cards.'', st)
          else
            (let (cleanedCards, h1) = map_preProcess cs 0 (heap st);
                 (validatedCards, h2) = validateCards cleanedCards h1;
                 invalid = filter (has_errors h2) validatedCards;
                 st' = saveHistory validatedCards (st\<lparr>heap := h2\<rparr>)
             in if length invalid > 0 then
                  ((result_response 400 ''Invalid card data.'')
                     \<lparr>discardCount := Some (length invalid), invalidCards := Some invalid\<rparr>,
                   st')
                else (result_response 200 ''Deck is valid'', st'))
      | _ \<Rightarrow> (error_response ''Input must be an array of cards'', st))"

text \<open>Lines 127-146: the content type decides where \<^verbatim>\<open>cards\<close> comes from.\<close>

definition post_cards :: "request \<Rightarrow> state \<Rightarrow> response \<times> state" where
  "post_cards req st =
     (case req of
        JsonBody b \<Rightarrow> handle_cards (body_cards b) st
      | TextBody None \<Rightarrow> (error_response ''Invalid JSON format in text input.'', st)
      | TextBody (Some v) \<Rightarrow> handle_cards (Some v) st
      | OtherBody \<Rightarrow> (error_response ''Unsupported input type.'', st))"

section \<open>Notions used to state the results\<close>

text \<open>
  The messages the three rules produce for a card, in the order of the checks, and
  what a run has added to the array at address \<open>r\<close>.
\<close>

definition violations :: "card \<Rightarrow> string list" where
  "violations c =
     (if alphabet_invalid (alphabet c) then [letter_msg] else []) @
     (if number_invalid (number c) then [digit_msg] else []) @
     (if pairing_invalid (alphabet c) (number c) then [pairing_msg] else [])"

definition appended :: "store \<Rightarrow> store \<Rightarrow> ref \<Rightarrow> string list" where
  "appended h h' r = drop (length (h ! r)) (h' ! r)"

text \<open>
  The value the handler binds to \<^verbatim>\<open>cards\<close> (lines 133-146), when it gets that far:
  the \<^verbatim>\<open>cards\<close> property of a JSON body, or the parsed text body.
\<close>

definition submitted :: "request \<Rightarrow> jsval option" where
  "submitted req =
     (case req of
        JsonBody b \<Rightarrow> body_cards b
      | TextBody x \<Rightarrow> x
      | OtherBody \<Rightarrow> None)"

text \<open>What the validator adds for a card: nothing when both fields are \<^verbatim>\<open>null\<close>.\<close>

definition rule_errors :: "card \<Rightarrow> string list" where
  "rule_errors c = (if alphabet c = None \<and> number c = None then [] else violations c)"

text \<open>
  The server's life: it starts with nothing allocated, an empty history (line 123)
  and no identifier issued, and handles requests one after the other.
\<close>

definition start :: state where
  "start = \<lparr>heap = [], cardHistory = [], uuids_issued = 0\<rparr>"

fun run :: "request list \<Rightarrow> state \<Rightarrow> state" where
  "run [] st = st"
| "run (req # rest) st = run rest (snd (post_cards req st))"

text \<open>
  The decimal text of an integer, as a client writes it into a string card: digits,
  after a minus sign when it is negative.
\<close>

definition digit_char :: "nat \<Rightarrow> 16 word" where
  "digit_char d = of_nat (48 + d)"

fun digits_of :: "nat \<Rightarrow> jsstring" where
  "digits_of n = (if n < 10 then [digit_char n] else digits_of (n div 10) @ [digit_char (n mod 10)])"

definition decimal :: "int \<Rightarrow> jsstring" where
  "decimal n = (if n < 0 then 0x2D # digits_of (nat (- n)) else digits_of (nat n))"

text \<open>
  One card through both steps, as the handler runs them, and the content of the
  \<^verbatim>\<open>errors\<close> array of the card that comes out.
\<close>

definition process :: "jsval \<Rightarrow> nat \<Rightarrow> store \<Rightarrow> card \<times> store" where
  "process v i h = (let (c, h1) = preProcess v i h in validate_card c h1)"

definition card_errors :: "card \<times> store \<Rightarrow> string list" where
  "card_errors p = (case errors (fst p) of None \<Rightarrow> [] | Some r \<Rightarrow> snd p ! r)"

text \<open>
  A validated card fed back as a record of its two fields, under any two keys;
  \<^verbatim>\<open>null\<close> stays \<^verbatim>\<open>null\<close>.
\<close>

definition feed_back :: "jsstring \<Rightarrow> jsstring \<Rightarrow> card \<Rightarrow> jsval" where
  "feed_back k1 k2 c =
     JObj [(k1, case alphabet c of None \<Rightarrow> JNull | Some s \<Rightarrow> JStr s),
           (k2, case number c of None \<Rightarrow> JNull | Some x \<Rightarrow> JNum x)]"

section \<open>The validator\<close>

lemma msgs_distinct:
  "letter_msg \<noteq> digit_msg" "letter_msg \<noteq> pairing_msg" "digit_msg \<noteq> pairing_msg"
  "digit_msg \<noteq> letter_msg" "pairing_msg \<noteq> letter_msg" "pairing_msg \<noteq> digit_msg"
  by (simp_all add: letter_msg_def digit_msg_def pairing_msg_def)

lemma push_error_Some:
  "errors c = Some r \<Longrightarrow> push_error msg (c, h) = (c, h[r := h ! r @ [msg]])"
  by (simp add: push_error_def push_def)

lemma validate_card_skip:
  "alphabet c = None \<Longrightarrow> number c = None \<Longrightarrow> validate_card c h = (c, h)"
  by (simp add: validate_card_def)

lemma validate_card_run:
  assumes "errors c = Some r" and "r < length h"
    and "\<not> (alphabet c = None \<and> number c = None)"
  shows "validate_card c h = (c, h[r := h ! r @ violations c])"
proof -
  from assms(3) have ne: "(alphabet c = None \<and> number c = None) = False" by simp
  show ?thesis
    unfolding validate_card_def ne
    using assms(1,2) by (simp add: Let_def push_error_Some violations_def)
qed

lemma alphabet_invalid_iff:
  "alphabet_invalid a \<longleftrightarrow> \<not> (\<exists>ch. a = Some [ch] \<and> 0x41 \<le> ch \<and> ch \<le> 0x5A)"
proof (cases a)
  case None
  then show ?thesis by (simp add: alphabet_invalid_def)
next
  case (Some s)
  show ?thesis
  proof (cases s)
    case Nil
    with Some show ?thesis by (simp add: alphabet_invalid_def)
  next
    case (Cons ch t)
    with Some show ?thesis
      by (cases t) (auto simp add: alphabet_invalid_def js_def)
  qed
qed

lemma isInteger_iff: "isInteger x \<longleftrightarrow> (\<exists>k. x = Fin (of_int k))"
proof (cases x)
  case (Fin p)
  have "of_int \<lfloor>p\<rfloor> = p \<longleftrightarrow> (\<exists>k. p = of_int k)"
    by (metis floor_of_int)
  with Fin show ?thesis by simp
qed simp_all

lemma number_invalid_iff:
  "number_invalid n \<longleftrightarrow> \<not> (\<exists>k. n = Some (Fin (of_int k)) \<and> 0 \<le> k \<and> k \<le> 9)"
proof (cases n)
  case None
  then show ?thesis by (simp add: number_invalid_def)
next
  case (Some x)
  show ?thesis
  proof (cases "isInteger x")
    case True
    then obtain k where "x = Fin (of_int k)" by (auto simp: isInteger_iff)
    with Some show ?thesis by (auto simp add: number_invalid_def)
  next
    case False
    then have "\<not> (\<exists>k. x = Fin (of_int k))" by (simp add: isInteger_iff)
    with Some False show ?thesis by (auto simp add: number_invalid_def)
  qed
qed

lemma finish_cases:
  assumes "finish i msg f h = (c, h')"
  shows "id c = i \<and> errors c = Some (length h) \<and>
     ((alphabet c = None \<and> number c = None \<and> h' = h @ [[msg]]) \<or>
      (\<exists>s x. alphabet c = Some s \<and> s \<noteq> [] \<and> number c = Some x \<and> h' = h @ [[]]))"
proof (cases f)
  case (Pair a n)
  show ?thesis
  proof (cases "not_alphabet a \<or> n = None")
    case True
    with assms Pair show ?thesis by (auto simp add: finish_def new_array_def)
  next
    case False
    then obtain s x where "a = Some s" "s \<noteq> []" "n = Some x"
      by (auto simp add: not_alphabet_def)
    with assms Pair False show ?thesis by (auto simp add: finish_def new_array_def)
  qed
qed

lemma preProcess_cases:
  assumes "preProcess v i h = (c, h')"
  shows "id c = i \<and> errors c = Some (length h) \<and>
     ((alphabet c = None \<and> number c = None \<and> (\<exists>msg. h' = h @ [[msg]])) \<or>
      (\<exists>s x. alphabet c = Some s \<and> s \<noteq> [] \<and> number c = Some x \<and> h' = h @ [[]]))"
proof (cases v)
  case (JStr s)
  with assms obtain msg f where "finish i msg f h = (c, h')" by simp
  from finish_cases [OF this] show ?thesis by blast
next
  case (JArr xs)
  with assms obtain msg f where "finish i msg f h = (c, h')" by simp
  from finish_cases [OF this] show ?thesis by blast
next
  case (JObj ps)
  with assms obtain msg f where "finish i msg f h = (c, h')" by simp
  from finish_cases [OF this] show ?thesis by blast
qed (use assms in \<open>auto simp add: new_array_def\<close>)

lemma appended_run:
  assumes "errors c = Some r" and "r < length h"
    and "\<not> (alphabet c = None \<and> number c = None)"
  shows "appended h (snd (validate_card c h)) r = violations c"
  using assms by (simp add: validate_card_run appended_def)

lemma set_violations:
  "letter_msg \<in> set (violations c) \<longleftrightarrow> alphabet_invalid (alphabet c)"
  "digit_msg \<in> set (violations c) \<longleftrightarrow> number_invalid (number c)"
  "pairing_msg \<in> set (violations c) \<longleftrightarrow> pairing_invalid (alphabet c) (number c)"
  by (simp_all add: violations_def msgs_distinct)

text \<open>
  Claim C1. On a card that \<^verbatim>\<open>preProcess\<close> built (its \<^verbatim>\<open>errors\<close> array exists) and
  whose letter and digit are not both \<^verbatim>\<open>null\<close>, the validator returns the card and
  only appends to its array. Among what it appends, the letter message occurs exactly
  when the letter is not one code unit between \<^verbatim>\<open>A\<close> (0x41) and \<^verbatim>\<open>Z\<close> (0x5A), and
  the digit message exactly when the digit is not an integer from 0 to 9. Each
  condition looks at its own field only, so both messages can occur together.
\<close>

theorem letter_and_digit_rules:
  assumes "errors c = Some r" and "r < length h"
    and "\<not> (alphabet c = None \<and> number c = None)"
  shows "fst (validate_card c h) = c \<and>
     snd (validate_card c h) ! r = h ! r @ appended h (snd (validate_card c h)) r \<and>
     (letter_msg \<in> set (appended h (snd (validate_card c h)) r) \<longleftrightarrow>
        \<not> (\<exists>ch. alphabet c = Some [ch] \<and> 0x41 \<le> ch \<and> ch \<le> 0x5A)) \<and>
     (digit_msg \<in> set (appended h (snd (validate_card c h)) r) \<longleftrightarrow>
        \<not> (\<exists>k. number c = Some (Fin (of_int k)) \<and> 0 \<le> k \<and> k \<le> 9))"
proof -
  have run: "validate_card c h = (c, h[r := h ! r @ violations c])"
    using assms by (rule validate_card_run)
  have app: "appended h (snd (validate_card c h)) r = violations c"
    using assms by (rule appended_run)
  have "snd (validate_card c h) ! r = h ! r @ violations c"
    using assms(2) by (simp add: run)
  moreover have "fst (validate_card c h) = c" by (simp add: run)
  ultimately show ?thesis
    unfolding app set_violations
    by (simp only: alphabet_invalid_iff number_invalid_iff simp_thms)
qed

text \<open>The card \<^verbatim>\<open>{ alphabet: "d", number: 44 }\<close> gets both messages.\<close>

theorem letter_and_digit_rules_witness:
  "(let c = \<lparr>id = 0, alphabet = Some (js ''d''), number = Some (Fin 44), errors = Some 0\<rparr>
    in errors c = Some 0 \<and> 0 < length [[] :: string list] \<and>
       \<not> (alphabet c = None \<and> number c = None) \<and>
       letter_msg \<in> set (appended [[]] (snd (validate_card c [[]])) 0) \<and>
       digit_msg \<in> set (appended [[]] (snd (validate_card c [[]])) 0))"
proof -
  let ?c = "\<lparr>id = 0, alphabet = Some (js ''d''), number = Some (Fin 44), errors = Some 0\<rparr>"
  have h: "errors ?c = Some 0" "0 < length [[] :: string list]"
    "\<not> (alphabet ?c = None \<and> number ?c = None)" by simp_all
  have "\<not> (\<exists>ch. alphabet ?c = Some [ch] \<and> 0x41 \<le> ch \<and> ch \<le> 0x5A)"
    by (simp add: js_def)
  moreover have "\<not> (\<exists>k. number ?c = Some (Fin (of_int k)) \<and> 0 \<le> k \<and> k \<le> 9)"
    by auto
  ultimately show ?thesis
    using letter_and_digit_rules [OF h] by (simp only: Let_def h simp_thms)
qed

text \<open>
  Claim C2. Whatever the raw card is (a string, an array, an object or anything
  else), if \<^verbatim>\<open>preProcess\<close> finds the letter \<^verbatim>\<open>D\<close>, then the array of the validated
  card, which starts empty, holds the pairing message exactly when the digit is not 3.
\<close>

theorem pairing_rule:
  assumes "preProcess v i h = (c, h1)" and "alphabet c = Some (js ''D'')"
  shows "errors c = Some (length h) \<and>
     fst (validate_card c h1) = c \<and>
     (pairing_msg \<in> set (snd (validate_card c h1) ! length h) \<longleftrightarrow>
        number c \<noteq> Some (Fin 3))"
proof -
  from preProcess_cases [OF assms(1)] assms(2)
  have e: "errors c = Some (length h)" and h1: "h1 = h @ [[]]" by auto
  have r: "length h < length h1" by (simp add: h1)
  have ne: "\<not> (alphabet c = None \<and> number c = None)" using assms(2) by simp
  have run: "validate_card c h1 = (c, h1[length h := h1 ! length h @ violations c])"
    using e r ne by (rule validate_card_run)
  have "snd (validate_card c h1) ! length h = violations c"
    using r by (simp add: run) (simp add: h1)
  then show ?thesis
    using e assms(2) by (simp add: run set_violations pairing_invalid_def)
qed

text \<open>The three shapes of the card \<^verbatim>\<open>D\<close>, 4 all get the pairing message.\<close>

theorem pairing_rule_witness:
  "(let p1 = preProcess (JStr (js ''D,4'')) 0 [];
        p2 = preProcess (JArr [JStr (js ''D''), JNum (Fin 4)]) 0 [];
        p3 = preProcess (JObj [(js ''sideA'', JStr (js ''D'')), (js ''sideB'', JNum (Fin 4))]) 0 []
    in alphabet (fst p1) = Some (js ''D'') \<and> number (fst p1) = Some (Fin 4) \<and>
       pairing_msg \<in> set (snd (validate_card (fst p1) (snd p1)) ! 0) \<and>
       alphabet (fst p2) = Some (js ''D'') \<and> number (fst p2) = Some (Fin 4) \<and>
       pairing_msg \<in> set (snd (validate_card (fst p2) (snd p2)) ! 0) \<and>
       alphabet (fst p3) = Some (js ''D'') \<and> number (fst p3) = Some (Fin 4) \<and>
       pairing_msg \<in> set (snd (validate_card (fst p3) (snd p3)) ! 0))"
proof -
  have s: "preProcess (JStr (js ''D,4'')) 0 [] =
      (\<lparr>id = 0, alphabet = Some (js ''D''), number = Some (Fin 4), errors = Some 0\<rparr>, [[]])"
    by code_simp
  have a: "preProcess (JArr [JStr (js ''D''), JNum (Fin 4)]) 0 [] =
      (\<lparr>id = 0, alphabet = Some (js ''D''), number = Some (Fin 4), errors = Some 0\<rparr>, [[]])"
    by code_simp
  have ob: "preProcess (JObj [(js ''sideA'', JStr (js ''D'')), (js ''sideB'', JNum (Fin 4))]) 0 [] =
      (\<lparr>id = 0, alphabet = Some (js ''D''), number = Some (Fin 4), errors = Some 0\<rparr>, [[]])"
    by code_simp
  show ?thesis
    using pairing_rule [OF s] pairing_rule [OF a] pairing_rule [OF ob]
    by (simp del: preProcess.simps add: s a ob)
qed

text \<open>
  Claim C5. A card that \<^verbatim>\<open>preProcess\<close> returns with letter and digit both \<^verbatim>\<open>null\<close>
  carries exactly one message, its parse error, and the validator returns it as it
  is and leaves the store alone: no rule is checked, nothing is appended.
\<close>

theorem parse_failure_passes_through:
  assumes "preProcess v i h = (c, h1)" and "alphabet c = None" and "number c = None"
  shows "validate_card c h1 = (c, h1) \<and> errors c = Some (length h) \<and>
     (\<exists>msg. h1 = h @ [[msg]])"
proof -
  from preProcess_cases [OF assms(1)] assms(2)
  have "errors c = Some (length h)" and "\<exists>msg. h1 = h @ [[msg]]" by auto
  with assms(2,3) show ?thesis by (simp add: validate_card_skip)
qed

text \<open>The string \<^verbatim>\<open>"Test"\<close> at index 17.\<close>

theorem parse_failure_passes_through_witness:
  "(let p = preProcess (JStr (js ''Test'')) 17 []
    in alphabet (fst p) = None \<and> number (fst p) = None \<and>
       validate_card (fst p) (snd p) = p \<and>
       snd p = [[''Invalid format for input string.'']])"
proof -
  have s: "preProcess (JStr (js ''Test'')) 17 [] =
      (\<lparr>id = 17, alphabet = None, number = None, errors = Some 0\<rparr>,
       [[''Invalid format for input string.'']])"
    by code_simp
  show ?thesis
    using parse_failure_passes_through [OF s] by (simp del: preProcess.simps add: s)
qed

section \<open>The handler\<close>

lemma post_cards_submitted:
  "submitted req = Some v \<Longrightarrow> post_cards req st = handle_cards (Some v) st"
  by (auto simp add: submitted_def post_cards_def split: request.splits option.splits)

text \<open>
  Claim C4. When the value bound to \<^verbatim>\<open>cards\<close> is an array whose length is not 20,
  the response is status 400 with the single field \<^verbatim>\<open>validationResult\<close>, without
  \<^verbatim>\<open>discardCount\<close> and \<^verbatim>\<open>invalidCards\<close>, and the state is the one before: no array
  was allocated (no card was normalized or validated) and nothing recorded.
\<close>

theorem wrong_size_rejected:
  assumes "submitted req = Some (JArr cs)" and "length cs \<noteq> 20"
  shows "post_cards req st =
     (\<lparr>status = 400, error = None,
       validationResult = Some ''The deck must have 20 cards.'',
       discardCount = None, invalidCards = None\<rparr>, st)"
  using assms by (simp add: post_cards_submitted handle_cards_def result_response_def)

text \<open>Nineteen cards as text, twenty-one as JSON.\<close>

theorem wrong_size_rejected_witness:
  "(let cs19 = replicate 19 (JStr (js ''A,1''));
        cs21 = replicate 21 (JStr (js ''A,1''));
        st = \<lparr>heap = [], cardHistory = [], uuids_issued = 0\<rparr>
    in submitted (TextBody (Some (JArr cs19))) = Some (JArr cs19) \<and> length cs19 \<noteq> 20 \<and>
       submitted (JsonBody (JObj [(js ''cards'', JArr cs21)])) = Some (JArr cs21) \<and>
       length cs21 \<noteq> 20 \<and>
       snd (post_cards (TextBody (Some (JArr cs19))) st) = st \<and>
       discardCount (fst (post_cards (TextBody (Some (JArr cs19))) st)) = None \<and>
       invalidCards (fst (post_cards (TextBody (Some (JArr cs19))) st)) = None \<and>
       snd (post_cards (JsonBody (JObj [(js ''cards'', JArr cs21)])) st) = st \<and>
       discardCount (fst (post_cards (JsonBody (JObj [(js ''cards'', JArr cs21)])) st)) = None \<and>
       invalidCards (fst (post_cards (JsonBody (JObj [(js ''cards'', JArr cs21)])) st)) = None)"
proof -
  let ?cs19 = "replicate 19 (JStr (js ''A,1''))"
  let ?cs21 = "replicate 21 (JStr (js ''A,1''))"
  have a: "submitted (TextBody (Some (JArr ?cs19))) = Some (JArr ?cs19)"
    by (simp add: submitted_def)
  have b: "submitted (JsonBody (JObj [(js ''cards'', JArr ?cs21)])) = Some (JArr ?cs21)"
    by (simp add: submitted_def body_cards_def)
  have l: "length ?cs19 \<noteq> 20" "length ?cs21 \<noteq> 20" by simp_all
  show ?thesis
    using wrong_size_rejected [OF a l(1)] wrong_size_rejected [OF b l(2)]
    by (simp add: a b Let_def)
qed

subsection \<open>A whole deck\<close>

lemma map_preProcess_spec:
  "map_preProcess vs i h = (cs, h') \<Longrightarrow>
     length cs = length vs \<and> length h' = length h + length vs \<and> take (length h) h' = h \<and>
     (\<forall>k<length vs. id (cs ! k) = i + k \<and> errors (cs ! k) = Some (length h + k))"
proof (induction vs arbitrary: i h cs h')
  case Nil
  then show ?case by simp
next
  case (Cons v vs)
  obtain c h1 where p: "preProcess v i h = (c, h1)" by (cases "preProcess v i h")
  obtain cs' h2 where m: "map_preProcess vs (Suc i) h1 = (cs', h2)"
    by (cases "map_preProcess vs (Suc i) h1")
  from Cons.prems p m have cs: "cs = c # cs'" and h': "h' = h2" by simp_all
  from preProcess_cases [OF p]
  have c: "id c = i" "errors c = Some (length h)" and h1: "length h1 = Suc (length h)" "take (length h) h1 = h"
    by auto
  from Cons.IH [OF m]
  have IH: "length cs' = length vs" "length h2 = length h1 + length vs"
    "take (length h1) h2 = h1"
    "\<And>k. k < length vs \<Longrightarrow> id (cs' ! k) = Suc i + k \<and> errors (cs' ! k) = Some (length h1 + k)"
    by auto
  have "take (length h) h2 = take (length h) (take (length h1) h2)"
    by (simp add: h1 min_def)
  then have t: "take (length h) h2 = h" by (simp add: IH(3) h1(2))
  have "id ((c # cs') ! k) = i + k \<and> errors ((c # cs') ! k) = Some (length h + k)"
    if "k < length (v # vs)" for k
    using that c IH(4) [of "k - 1"] h1(1) by (cases k) auto
  then show ?case
    using IH(1,2) h1(1) t by (simp add: cs h')
qed

lemma validate_card_rule_errors:
  assumes "errors c = Some r" and "r < length h"
  shows "validate_card c h = (c, h[r := h ! r @ rule_errors c])"
proof (cases "alphabet c = None \<and> number c = None")
  case True
  then show ?thesis by (simp add: validate_card_skip rule_errors_def)
next
  case False
  then have "rule_errors c = violations c"
    unfolding rule_errors_def by (rule if_not_P)
  with validate_card_run [OF assms False] show ?thesis by simp
qed

lemma validateCards_spec:
  "\<forall>k<length cs. errors (cs ! k) = Some (b + k) \<Longrightarrow> b + length cs \<le> length h \<Longrightarrow>
   validateCards cs h = (vs, h') \<Longrightarrow>
     vs = cs \<and> length h' = length h \<and>
     (\<forall>r<length h. r < b \<or> b + length cs \<le> r \<longrightarrow> h' ! r = h ! r) \<and>
     (\<forall>k<length cs. h' ! (b + k) = h ! (b + k) @ rule_errors (cs ! k))"
proof (induction cs arbitrary: b h vs h')
  case Nil
  then show ?case by simp
next
  case (Cons c cs)
  from Cons.prems(1) have e: "errors c = Some b" by fastforce
  from Cons.prems(2) have b: "b < length h" by simp
  let ?h1 = "h[b := h ! b @ rule_errors c]"
  have v: "validate_card c h = (c, ?h1)" using e b by (rule validate_card_rule_errors)
  obtain vs' h2 where m: "validateCards cs ?h1 = (vs', h2)"
    by (cases "validateCards cs ?h1")
  from Cons.prems(3) v m have vs: "vs = c # vs'" and h': "h' = h2" by simp_all
  have p1: "\<forall>k<length cs. errors (cs ! k) = Some (Suc b + k)"
    using Cons.prems(1) by fastforce
  have p2: "Suc b + length cs \<le> length ?h1" using Cons.prems(2) by simp
  from Cons.IH [OF p1 p2 m]
  have IH: "vs' = cs" "length h2 = length h"
    "\<And>r. r < length h \<Longrightarrow> r < Suc b \<or> Suc b + length cs \<le> r \<Longrightarrow> h2 ! r = ?h1 ! r"
    "\<And>k. k < length cs \<Longrightarrow> h2 ! (Suc b + k) = ?h1 ! (Suc b + k) @ rule_errors (cs ! k)"
    by auto
  have frame: "h2 ! r = h ! r" if "r < length h" "r < b \<or> b + length (c # cs) \<le> r" for r
    using that IH(3) [of r] by auto
  have upd: "h2 ! (b + k) = h ! (b + k) @ rule_errors ((c # cs) ! k)" if "k < length (c # cs)" for k
  proof (cases k)
    case 0
    then show ?thesis using IH(3) [of b] b by simp
  next
    case (Suc j)
    with that IH(4) [of j] show ?thesis by simp
  qed
  show ?case using IH(1,2) frame upd by (simp add: vs h')
qed

lemma fold_snoc_map: "fold (\<lambda>c acc. acc @ [f c]) cs hist = hist @ map f cs"
  by (induction cs arbitrary: hist) simp_all

lemma saveHistory_map:
  "saveHistory cs st =
     st\<lparr>cardHistory := cardHistory st @ map (history_entry (uuids_issued st)) cs,
        uuids_issued := Suc (uuids_issued st)\<rparr>"
  by (simp add: saveHistory_def uuidv1_def fold_snoc_map)

lemma take_length_le: "take (length xs) ys = xs \<Longrightarrow> length xs \<le> length ys"
proof -
  assume "take (length xs) ys = xs"
  then have "length (take (length xs) ys) = length xs" by simp
  then show ?thesis by simp
qed

lemma batch_store:
  assumes "map_preProcess cs 0 h = (cleanedCards, h1)"
    and "validateCards cleanedCards h1 = (validatedCards, h2)"
  shows "validatedCards = cleanedCards \<and> length validatedCards = length cs \<and>
     length h2 = length h + length cs \<and> take (length h) h2 = h \<and>
     (\<forall>k<length cs. id (validatedCards ! k) = k \<and>
        errors (validatedCards ! k) = Some (length h + k))"
proof -
  from map_preProcess_spec [OF assms(1)]
  have m: "length cleanedCards = length cs" "length h1 = length h + length cs"
    "take (length h) h1 = h"
    "\<forall>k<length cs. id (cleanedCards ! k) = 0 + k \<and> errors (cleanedCards ! k) = Some (length h + k)"
    by auto
  have p1: "\<forall>k<length cleanedCards. errors (cleanedCards ! k) = Some (length h + k)"
    using m(1,4) by simp
  have p2: "length h + length cleanedCards \<le> length h1" using m(1,2) by simp
  from validateCards_spec [OF p1 p2 assms(2)]
  have v: "validatedCards = cleanedCards" "length h2 = length h1"
    "\<forall>r<length h1. r < length h \<or> length h + length cleanedCards \<le> r \<longrightarrow> h2 ! r = h1 ! r"
    by auto
  have "take (length h) h2 = take (length h) h1"
  proof (rule nth_take_lemma)
    show "length h \<le> length h2" using v(2) m(2) by simp
    show "length h \<le> length h1" using m(2) by simp
    show "i < length h \<longrightarrow> h2 ! i = h1 ! i" for i
      using v(3) m(2) by simp
  qed
  with m(3) have "take (length h) h2 = h" by simp
  then show ?thesis using v(1,2) m by simp
qed

lemma take_take_le:
  "n \<le> length ys \<Longrightarrow> take n ys = xs \<Longrightarrow> take (length ys) zs = ys \<Longrightarrow> take n zs = xs"
  by (metis min.absorb1 take_take)

text \<open>
  What a request does to the state: nothing, or it leaves the store longer, the
  history longer by one entry per card under the identifier issued, and one more
  identifier issued.
\<close>

lemma post_cards_state:
  "snd (post_cards req st) = st \<or>
   (\<exists>h2 vs. take (length (heap st)) h2 = heap st \<and>
      snd (post_cards req st) =
        \<lparr>heap = h2, cardHistory = cardHistory st @ map (history_entry (uuids_issued st)) vs,
         uuids_issued = Suc (uuids_issued st)\<rparr>)"
proof (cases "submitted req")
  case None
  then have "snd (post_cards req st) = st"
    by (auto simp add: submitted_def post_cards_def handle_cards_def
        split: request.splits option.splits)
  then show ?thesis by simp
next
  case (Some v)
  note sub = post_cards_submitted [OF Some]
  show ?thesis
  proof (cases "\<exists>cs. v = JArr cs \<and> length cs = 20")
    case False
    then have "snd (handle_cards (Some v) st) = st"
      by (cases v) (auto simp add: handle_cards_def)
    then show ?thesis by (simp add: sub)
  next
    case True
    then obtain cs where v: "v = JArr cs" and len: "length cs = 20" by auto
    obtain cleanedCards h1 where m: "map_preProcess cs 0 (heap st) = (cleanedCards, h1)"
      by (cases "map_preProcess cs 0 (heap st)")
    obtain validatedCards h2 where w: "validateCards cleanedCards h1 = (validatedCards, h2)"
      by (cases "validateCards cleanedCards h1")
    have st': "snd (handle_cards (Some v) st) =
        \<lparr>heap = h2,
         cardHistory = cardHistory st @ map (history_entry (uuids_issued st)) validatedCards,
         uuids_issued = Suc (uuids_issued st)\<rparr>"
      using v len m w by (simp add: handle_cards_def Let_def saveHistory_map)
    from batch_store [OF m w] have "take (length (heap st)) h2 = heap st" by simp
    with st' show ?thesis by (auto simp add: sub)
  qed
qed

lemma entry_deckId: "deckId (history_entry d c) = d"
  by (simp add: history_entry_def)

text \<open>
  Under any sequence of requests the store and the history only grow, and every entry
  that is added has an identifier issued in between.
\<close>

lemma run_state:
  "take (length (heap st)) (heap (run reqs st)) = heap st \<and>
   uuids_issued st \<le> uuids_issued (run reqs st) \<and>
   (\<exists>added. cardHistory (run reqs st) = cardHistory st @ added \<and>
      (\<forall>e \<in> set added. uuids_issued st \<le> deckId e \<and> deckId e < uuids_issued (run reqs st)))"
proof (induction reqs arbitrary: st)
  case Nil
  show ?case by simp
next
  case (Cons req reqs)
  let ?st1 = "snd (post_cards req st)"
  from Cons.IH [of ?st1] obtain added where
    h: "take (length (heap ?st1)) (heap (run reqs ?st1)) = heap ?st1"
    and u: "uuids_issued ?st1 \<le> uuids_issued (run reqs ?st1)"
    and c: "cardHistory (run reqs ?st1) = cardHistory ?st1 @ added"
    and d: "\<forall>e \<in> set added. uuids_issued ?st1 \<le> deckId e \<and>
          deckId e < uuids_issued (run reqs ?st1)"
    by blast
  from post_cards_state [of req st] show ?case
  proof
    assume "?st1 = st"
    with h u c d show ?thesis by auto
  next
    assume "\<exists>h2 vs. take (length (heap st)) h2 = heap st \<and>
      ?st1 = \<lparr>heap = h2,
         cardHistory = cardHistory st @ map (history_entry (uuids_issued st)) vs,
         uuids_issued = Suc (uuids_issued st)\<rparr>"
    then obtain h2 vs where t: "take (length (heap st)) h2 = heap st"
      and s1: "?st1 = \<lparr>heap = h2,
         cardHistory = cardHistory st @ map (history_entry (uuids_issued st)) vs,
         uuids_issued = Suc (uuids_issued st)\<rparr>"
      by blast
    from s1 have hp: "heap ?st1 = h2"
      and ch: "cardHistory ?st1 = cardHistory st @ map (history_entry (uuids_issued st)) vs"
      and ui: "uuids_issued ?st1 = Suc (uuids_issued st)" by simp_all
    have l: "length (heap st) \<le> length h2" using t by (rule take_length_le)
    from h have "take (length h2) (heap (run reqs ?st1)) = h2" by (simp only: hp)
    with l t have a: "take (length (heap st)) (heap (run reqs ?st1)) = heap st"
      by (rule take_take_le)
    have b: "uuids_issued st \<le> uuids_issued (run reqs ?st1)" using u ui by simp
    let ?added = "map (history_entry (uuids_issued st)) vs @ added"
    have c': "cardHistory (run reqs ?st1) = cardHistory st @ ?added"
      using c ch by simp
    have d': "\<forall>e \<in> set ?added. uuids_issued st \<le> deckId e \<and>
          deckId e < uuids_issued (run reqs ?st1)"
      using d u ui by (auto simp add: entry_deckId)
    from a b c' d' show ?thesis by (simp only: run.simps) blast
  qed
qed

text \<open>From the start on, every identifier in the history has been issued.\<close>

lemma issued_before:
  "\<forall>e \<in> set (cardHistory (run reqs start)). deckId e < uuids_issued (run reqs start)"
  using run_state [of start reqs] by (auto simp add: start_def)

text \<open>
  A card of a deck comes out as it does alone: the two passes over the deck give card
  \<open>k\<close> the fields and the messages that both steps give it on an empty store.
\<close>

lemma finish_any_store:
  assumes "finish i msg f h = (c, h1)"
  shows "\<exists>e. h1 = h @ [e] \<and> (\<forall>h'. finish i msg f h' = (c\<lparr>errors := Some (length h')\<rparr>, h' @ [e]))"
proof (cases f)
  case (Pair a n)
  show ?thesis
  proof (cases "not_alphabet a \<or> n = None")
    case True
    with assms Pair show ?thesis by (auto simp add: finish_def new_array_def)
  next
    case False
    with assms Pair show ?thesis by (auto simp add: finish_def new_array_def)
  qed
qed

lemma preProcess_any_store:
  assumes "preProcess v i h = (c, h1)"
  shows "\<exists>e. h1 = h @ [e] \<and> (\<forall>h'. preProcess v i h' = (c\<lparr>errors := Some (length h')\<rparr>, h' @ [e]))"
proof (cases v)
  case (JStr s)
  with assms finish_any_store [of i "''Invalid format for input string.''" _ h c h1]
  show ?thesis by simp
next
  case (JArr xs)
  with assms finish_any_store [of i "''Invalid format for input array.''" _ h c h1]
  show ?thesis by simp
next
  case (JObj ps)
  with assms finish_any_store [of i "''Invalid format for input object.''" _ h c h1]
  show ?thesis by simp
qed (use assms in \<open>auto simp add: new_array_def\<close>)

lemma map_preProcess_nth:
  "map_preProcess vs i h = (cs, h') \<Longrightarrow> k < length vs \<Longrightarrow>
     preProcess (vs ! k) (i + k) [] = ((cs ! k)\<lparr>errors := Some 0\<rparr>, [h' ! (length h + k)])"
proof (induction vs arbitrary: i h cs h' k)
  case Nil
  then show ?case by simp
next
  case (Cons v vs)
  obtain c h1 where p: "preProcess v i h = (c, h1)" by (cases "preProcess v i h")
  obtain cs' h2 where m: "map_preProcess vs (Suc i) h1 = (cs', h2)"
    by (cases "map_preProcess vs (Suc i) h1")
  from Cons.prems(1) p m have cs: "cs = c # cs'" and h': "h' = h2" by simp_all
  from preProcess_any_store [OF p] obtain e where h1: "h1 = h @ [e]"
    and any: "\<And>h'. preProcess v i h' = (c\<lparr>errors := Some (length h')\<rparr>, h' @ [e])" by blast
  from map_preProcess_spec [OF m] have t: "take (length h1) h2 = h1" by simp
  show ?case
  proof (cases k)
    case 0
    have "h2 ! length h = take (length h1) h2 ! length h" by (simp add: h1)
    then have "h2 ! length h = e" by (simp add: t) (simp add: h1)
    with any [of "[]"] show ?thesis by (simp add: 0 cs h')
  next
    case (Suc j)
    with Cons.prems(2) have j: "j < length vs" by simp
    from Cons.IH [OF m j] show ?thesis by (simp add: Suc cs h' h1)
  qed
qed

lemma rule_errors_cong:
  "alphabet c = alphabet c' \<Longrightarrow> number c = number c' \<Longrightarrow> rule_errors c = rule_errors c'"
  by (simp add: rule_errors_def violations_def)

lemma deck_card:
  assumes "map_preProcess cs 0 h = (cleanedCards, h1)"
    and "validateCards cleanedCards h1 = (validatedCards, h2)"
    and "k < length cs"
  shows "validatedCards ! k = (fst (process (cs ! k) k []))\<lparr>errors := Some (length h + k)\<rparr> \<and>
     h2 ! (length h + k) = card_errors (process (cs ! k) k [])"
proof -
  let ?c = "cleanedCards ! k"
  from map_preProcess_spec [OF assms(1)]
  have m: "length cleanedCards = length cs" "length h1 = length h + length cs"
    "\<forall>k<length cs. errors (cleanedCards ! k) = Some (length h + k)"
    by auto
  have p1: "\<forall>k<length cleanedCards. errors (cleanedCards ! k) = Some (length h + k)"
    using m(1,3) by simp
  have p2: "length h + length cleanedCards \<le> length h1" using m(1,2) by simp
  from validateCards_spec [OF p1 p2 assms(2)] assms(3) m(1)
  have v: "validatedCards = cleanedCards"
    "h2 ! (length h + k) = h1 ! (length h + k) @ rule_errors ?c"
    by auto
  from map_preProcess_nth [OF assms(1,3)]
  have p: "preProcess (cs ! k) k [] = (?c\<lparr>errors := Some 0\<rparr>, [h1 ! (length h + k)])" by simp
  have "validate_card (?c\<lparr>errors := Some 0\<rparr>) [h1 ! (length h + k)] =
      (?c\<lparr>errors := Some 0\<rparr>,
       [h1 ! (length h + k)][0 := [h1 ! (length h + k)] ! 0 @ rule_errors (?c\<lparr>errors := Some 0\<rparr>)])"
    by (rule validate_card_rule_errors) simp_all
  moreover have "rule_errors (?c\<lparr>errors := Some 0\<rparr>) = rule_errors ?c"
    by (rule rule_errors_cong) simp_all
  ultimately have pr: "process (cs ! k) k [] =
      (?c\<lparr>errors := Some 0\<rparr>, [h1 ! (length h + k) @ rule_errors ?c])"
    by (simp add: process_def p)
  have "errors ?c = Some (length h + k)" using m(3) assms(3) by simp
  then have "(?c\<lparr>errors := Some 0\<rparr>)\<lparr>errors := Some (length h + k)\<rparr> = ?c" by simp
  then show ?thesis by (simp add: pr v card_errors_def)
qed

subsection \<open>Two decks, evaluated\<close>

lemma bad_deck_cleaned:
  "map_preProcess (replicate 19 (JStr (js ''A,1'')) @ [JStr (js ''D,4'')]) 0 [] =
     (map (\<lambda>k. \<lparr>id = k, alphabet = Some (js ''A''), number = Some (Fin 1), errors = Some k\<rparr>) [0..<19] @
      [\<lparr>id = 19, alphabet = Some (js ''D''), number = Some (Fin 4), errors = Some 19\<rparr>],
      replicate 20 [])"
  by code_simp

lemma bad_deck_validated:
  "validateCards
     (map (\<lambda>k. \<lparr>id = k, alphabet = Some (js ''A''), number = Some (Fin 1), errors = Some k\<rparr>) [0..<19] @
      [\<lparr>id = 19, alphabet = Some (js ''D''), number = Some (Fin 4), errors = Some 19\<rparr>])
     (replicate 20 []) =
     (map (\<lambda>k. \<lparr>id = k, alphabet = Some (js ''A''), number = Some (Fin 1), errors = Some k\<rparr>) [0..<19] @
      [\<lparr>id = 19, alphabet = Some (js ''D''), number = Some (Fin 4), errors = Some 19\<rparr>],
      replicate 19 [] @ [[pairing_msg]])"
  by code_simp

lemma bad_deck_invalid:
  "filter (has_errors (replicate 19 [] @ [[pairing_msg]]))
     (map (\<lambda>k. \<lparr>id = k, alphabet = Some (js ''A''), number = Some (Fin 1), errors = Some k\<rparr>) [0..<19] @
      [\<lparr>id = 19, alphabet = Some (js ''D''), number = Some (Fin 4), errors = Some 19\<rparr>]) =
   [\<lparr>id = 19, alphabet = Some (js ''D''), number = Some (Fin 4), errors = Some 19\<rparr>]"
  by code_simp

lemma good_deck_cleaned:
  "map_preProcess (replicate 20 (JStr (js ''A,1''))) 0 [] =
     (map (\<lambda>k. \<lparr>id = k, alphabet = Some (js ''A''), number = Some (Fin 1), errors = Some k\<rparr>) [0..<20],
      replicate 20 [])"
  by code_simp

lemma good_deck_validated:
  "validateCards
     (map (\<lambda>k. \<lparr>id = k, alphabet = Some (js ''A''), number = Some (Fin 1), errors = Some k\<rparr>) [0..<20])
     (replicate 20 []) =
     (map (\<lambda>k. \<lparr>id = k, alphabet = Some (js ''A''), number = Some (Fin 1), errors = Some k\<rparr>) [0..<20],
      replicate 20 [])"
  by code_simp

lemma good_deck_invalid:
  "filter (has_errors (replicate 20 []))
     (map (\<lambda>k. \<lparr>id = k, alphabet = Some (js ''A''), number = Some (Fin 1), errors = Some k\<rparr>) [0..<20]) = []"
  by code_simp

lemma bad_deck_some_invalid:
  "\<exists>c \<in> set (map (\<lambda>k. \<lparr>id = k, alphabet = Some (js ''A''), number = Some (Fin 1), errors = Some k\<rparr>) [0..<19] @
      [\<lparr>id = 19, alphabet = Some (js ''D''), number = Some (Fin 4), errors = Some 19\<rparr>]).
     has_errors (replicate 19 [] @ [[pairing_msg]]) c"
  by code_simp

lemma good_deck_none_invalid:
  "\<not> (\<exists>c \<in> set (map (\<lambda>k. \<lparr>id = k, alphabet = Some (js ''A''), number = Some (Fin 1), errors = Some k\<rparr>) [0..<20]).
     has_errors (replicate 20 []) c)"
  by code_simp

text \<open>
  Claim C7. For an array of 20 cards, with \<open>validatedCards\<close> and \<open>h2\<close> the cards
  and the store after validation: if some card has a nonempty \<^verbatim>\<open>errors\<close> array, the
  response is status 400 with \<^verbatim>\<open>discardCount\<close> the number of such cards and
  \<^verbatim>\<open>invalidCards\<close> exactly those cards, in order; otherwise it is status 200 with
  \<^verbatim>\<open>validationResult\<close> only. Card \<open>k\<close> has a nonempty array exactly when both steps,
  run on raw card \<open>k\<close> alone, leave a message.
\<close>

theorem response_shape:
  assumes "submitted req = Some (JArr cs)" and "length cs = 20"
    and "map_preProcess cs 0 (heap st) = (cleanedCards, h1)"
    and "validateCards cleanedCards h1 = (validatedCards, h2)"
  shows "fst (post_cards req st) =
     (if \<exists>c \<in> set validatedCards. has_errors h2 c then
        \<lparr>status = 400, error = None, validationResult = Some ''Invalid card data.'',
         discardCount = Some (length (filter (has_errors h2) validatedCards)),
         invalidCards = Some (filter (has_errors h2) validatedCards)\<rparr>
      else
        \<lparr>status = 200, error = None, validationResult = Some ''Deck is valid'',
         discardCount = None, invalidCards = None\<rparr>) \<and>
     length validatedCards = 20 \<and>
     (\<forall>k<20. has_errors h2 (validatedCards ! k) \<longleftrightarrow>
        card_errors (process (cs ! k) k []) \<noteq> [])"
proof -
  have "(\<exists>c \<in> set validatedCards. has_errors h2 c) \<longleftrightarrow>
      filter (has_errors h2) validatedCards \<noteq> []"
    by (simp add: filter_empty_conv)
  then have r: "fst (post_cards req st) =
     (if \<exists>c \<in> set validatedCards. has_errors h2 c then
        \<lparr>status = 400, error = None, validationResult = Some ''Invalid card data.'',
         discardCount = Some (length (filter (has_errors h2) validatedCards)),
         invalidCards = Some (filter (has_errors h2) validatedCards)\<rparr>
      else
        \<lparr>status = 200, error = None, validationResult = Some ''Deck is valid'',
         discardCount = None, invalidCards = None\<rparr>)"
    using assms
    by (simp add: post_cards_submitted handle_cards_def result_response_def Let_def)
  from batch_store [OF assms(3,4)] assms(2)
  have l: "length validatedCards = 20" by auto
  have "has_errors h2 (validatedCards ! k) \<longleftrightarrow> card_errors (process (cs ! k) k []) \<noteq> []"
    if "k < 20" for k
  proof -
    from that assms(2) have "k < length cs" by simp
    from deck_card [OF assms(3,4) this] show ?thesis by (simp add: has_errors_def)
  qed
  with r l show ?thesis by blast
qed

text \<open>
  A deck whose last card is \<^verbatim>\<open>"D,4"\<close> is answered with that one card; a deck of
  \<^verbatim>\<open>"A,1"\<close> is accepted.
\<close>

theorem response_shape_witness:
  "(let bad = replicate 19 (JStr (js ''A,1'')) @ [JStr (js ''D,4'')];
        good = replicate 20 (JStr (js ''A,1''));
        st = \<lparr>heap = [], cardHistory = [], uuids_issued = 0\<rparr>
    in submitted (TextBody (Some (JArr bad))) = Some (JArr bad) \<and> length bad = 20 \<and>
       submitted (TextBody (Some (JArr good))) = Some (JArr good) \<and> length good = 20 \<and>
       fst (post_cards (TextBody (Some (JArr bad))) st) =
         \<lparr>status = 400, error = None, validationResult = Some ''Invalid card data.'',
          discardCount = Some 1,
          invalidCards = Some [\<lparr>id = 19, alphabet = Some (js ''D''), number = Some (Fin 4),
                                errors = Some 19\<rparr>]\<rparr> \<and>
       fst (post_cards (TextBody (Some (JArr good))) st) =
         \<lparr>status = 200, error = None, validationResult = Some ''Deck is valid'',
          discardCount = None, invalidCards = None\<rparr>)"
proof -
  let ?bad = "replicate 19 (JStr (js ''A,1'')) @ [JStr (js ''D,4'')]"
  let ?good = "replicate 20 (JStr (js ''A,1''))"
  let ?st = "\<lparr>heap = [], cardHistory = [], uuids_issued = 0\<rparr>"
  have sb: "submitted (TextBody (Some (JArr ?bad))) = Some (JArr ?bad)"
    and sg: "submitted (TextBody (Some (JArr ?good))) = Some (JArr ?good)"
    by (simp_all add: submitted_def)
  have lb: "length ?bad = 20" and lg: "length ?good = 20" by simp_all
  have mb: "map_preProcess ?bad 0 (heap ?st) = 
     (map (\<lambda>k. \<lparr>id = k, alphabet = Some (js ''A''), number = Some (Fin 1), errors = Some k\<rparr>) [0..<19] @
      [\<lparr>id = 19, alphabet = Some (js ''D''), number = Some (Fin 4), errors = Some 19\<rparr>],
      replicate 20 [])"
    using bad_deck_cleaned by simp
  have mg: "map_preProcess ?good 0 (heap ?st) =
     (map (\<lambda>k. \<lparr>id = k, alphabet = Some (js ''A''), number = Some (Fin 1), errors = Some k\<rparr>) [0..<20],
      replicate 20 [])"
    using good_deck_cleaned by simp
  have rb: "fst (post_cards (TextBody (Some (JArr ?bad))) ?st) =
         \<lparr>status = 400, error = None, validationResult = Some ''Invalid card data.'',
          discardCount = Some 1,
          invalidCards = Some [\<lparr>id = 19, alphabet = Some (js ''D''), number = Some (Fin 4),
                                errors = Some 19\<rparr>]\<rparr>"
    unfolding response_shape [OF sb lb mb bad_deck_validated, THEN conjunct1]
    by (simp only: bad_deck_some_invalid bad_deck_invalid if_True) simp
  have rg: "fst (post_cards (TextBody (Some (JArr ?good))) ?st) =
         \<lparr>status = 200, error = None, validationResult = Some ''Deck is valid'',
          discardCount = None, invalidCards = None\<rparr>"
    unfolding response_shape [OF sg lg mg good_deck_validated, THEN conjunct1]
    by (simp only: good_deck_none_invalid if_False)
  show ?thesis
    unfolding Let_def using sb lb sg lg rb rg by (intro conjI)
qed

text \<open>
  Claim C9. In the state after any sequence of earlier requests, a request with 20
  cards, valid or not, appends to the history one entry per validated card, in
  order: entry \<open>k\<close> has \<^verbatim>\<open>cardId\<close> \<open>k\<close> and the letter, digit and \<^verbatim>\<open>errors\<close> array
  of card \<open>k\<close>, and all 20 have the one identifier \<^verbatim>\<open>uuidv1\<close> returns for this
  request. No entry recorded before has that identifier, so the entries with it are
  exactly these 20. The entries and the arrays that existed before stay as they were.
  Under any later sequence of requests everything recorded now stays as it is, and no
  later entry gets the identifier of this batch.
\<close>

theorem history_recorded:
  assumes "st = run earlier start"
    and "submitted req = Some (JArr cs)" and "length cs = 20"
    and "map_preProcess cs 0 (heap st) = (cleanedCards, h1)"
    and "validateCards cleanedCards h1 = (validatedCards, h2)"
    and "post_cards req st = (resp, st')"
  shows "(let d = fst (uuidv1 (uuids_issued st));
           new = map (history_entry d) validatedCards
     in cardHistory st' = cardHistory st @ new \<and>
        length new = 20 \<and>
        (\<forall>k<20. new ! k =
           \<lparr>deckId = d, cardId = k, entry_alphabet = alphabet (validatedCards ! k),
            entry_number = number (validatedCards ! k),
            entry_errors = errors (validatedCards ! k)\<rparr>) \<and>
        d \<notin> deckId ` set (cardHistory st) \<and>
        filter (\<lambda>e. deckId e = d) (cardHistory st') = new \<and>
        heap st' = h2 \<and> take (length (heap st)) h2 = heap st \<and>
        (\<forall>later.
           take (length (cardHistory st')) (cardHistory (run later st')) = cardHistory st' \<and>
           take (length (heap st')) (heap (run later st')) = heap st' \<and>
           filter (\<lambda>e. deckId e = d) (cardHistory (run later st')) = new))"
proof -
  let ?d = "uuids_issued st"
  let ?new = "map (history_entry ?d) validatedCards"
  have d: "fst (uuidv1 (uuids_issued st)) = ?d" by (simp add: uuidv1_def)
  have "snd (post_cards req st) = \<lparr>heap = h2, cardHistory = cardHistory st @ ?new,
      uuids_issued = Suc ?d\<rparr>"
    using assms(2-5)
    by (simp add: post_cards_submitted handle_cards_def Let_def saveHistory_map)
  with assms(6) have st': "st' = \<lparr>heap = h2, cardHistory = cardHistory st @ ?new,
      uuids_issued = Suc ?d\<rparr>"
    by simp
  from batch_store [OF assms(4,5)] assms(3)
  have b: "length validatedCards = 20" "take (length (heap st)) h2 = heap st"
    "\<And>k. k < 20 \<Longrightarrow> id (validatedCards ! k) = k" by auto
  have e: "?new ! k =
        \<lparr>deckId = ?d, cardId = k, entry_alphabet = alphabet (validatedCards ! k),
         entry_number = number (validatedCards ! k),
         entry_errors = errors (validatedCards ! k)\<rparr>" if "k < 20" for k
    using that b(1) b(3) [OF that] by (simp add: history_entry_def)
  have fresh: "?d \<notin> deckId ` set (cardHistory st)"
    using issued_before [of earlier] by (auto simp add: assms(1))
  then have "\<forall>e \<in> set (cardHistory st). deckId e \<noteq> ?d" by (metis imageI)
  then have old: "filter (\<lambda>e. deckId e = ?d) (cardHistory st) = []"
    by (simp add: filter_empty_conv)
  have own: "filter (\<lambda>e. deckId e = ?d) ?new = ?new"
    by (simp add: filter_id_conv entry_deckId)
  have f: "filter (\<lambda>e. deckId e = ?d) (cardHistory st') = ?new"
    using old own by (simp add: st')
  have later: "take (length (cardHistory st')) (cardHistory (run reqs st')) = cardHistory st' \<and>
      take (length (heap st')) (heap (run reqs st')) = heap st' \<and>
      filter (\<lambda>e. deckId e = ?d) (cardHistory (run reqs st')) = ?new" for reqs
  proof -
    from run_state [of st' reqs] obtain added where
      h: "take (length (heap st')) (heap (run reqs st')) = heap st'"
      and c: "cardHistory (run reqs st') = cardHistory st' @ added"
      and a: "\<forall>e \<in> set added. uuids_issued st' \<le> deckId e" by blast
    have "uuids_issued st' = Suc ?d" by (simp add: st')
    with a have "\<forall>e \<in> set added. deckId e \<noteq> ?d" by auto
    then have "filter (\<lambda>e. deckId e = ?d) added = []" by (simp add: filter_empty_conv)
    with f c h show ?thesis by simp
  qed
  have hp: "heap st' = h2" by (simp add: st')
  have ch: "cardHistory st' = cardHistory st @ ?new" by (simp add: st')
  have ln: "length ?new = 20" using b(1) by simp
  show ?thesis
    unfolding Let_def d using ch ln e fresh f hp b(2) later by blast
qed

text \<open>
  The first deck after the start: 20 entries under identifier 0, the last one for
  \<^verbatim>\<open>"D,4"\<close>; a second deck leaves them in place and gets another identifier.
\<close>

theorem history_recorded_witness:
  "(let bad = replicate 19 (JStr (js ''A,1'')) @ [JStr (js ''D,4'')];
        req = TextBody (Some (JArr bad));
        st1 = snd (post_cards req start);
        st2 = run [TextBody (Some (JArr (replicate 20 (JStr (js ''A,1'')))))] st1
    in start = run [] start \<and>
       submitted req = Some (JArr bad) \<and> length bad = 20 \<and>
       length (cardHistory st1) = 20 \<and>
       length (filter (\<lambda>e. deckId e = 0) (cardHistory st1)) = 20 \<and>
       cardHistory st1 ! 19 =
         \<lparr>deckId = 0, cardId = 19, entry_alphabet = Some (js ''D''),
          entry_number = Some (Fin 4), entry_errors = Some 19\<rparr> \<and>
       heap st1 ! 19 = [pairing_msg] \<and>
       take 20 (cardHistory st2) = cardHistory st1 \<and>
       take 20 (heap st2) = heap st1 \<and>
       length (filter (\<lambda>e. deckId e = 0) (cardHistory st2)) = 20)"
proof -
  let ?bad = "replicate 19 (JStr (js ''A,1'')) @ [JStr (js ''D,4'')]"
  let ?req = "TextBody (Some (JArr ?bad))"
  let ?st = "start"
  let ?st1 = "snd (post_cards ?req ?st)"
  let ?later = "[TextBody (Some (JArr (replicate 20 (JStr (js ''A,1'')))))]"
  let ?V = "map (\<lambda>k. \<lparr>id = k, alphabet = Some (js ''A''), number = Some (Fin 1), errors = Some k\<rparr>) [0..<19] @
      [\<lparr>id = 19, alphabet = Some (js ''D''), number = Some (Fin 4), errors = Some 19\<rparr>]"
  have sb: "submitted ?req = Some (JArr ?bad)" by (simp add: submitted_def)
  have lb: "length ?bad = 20" by simp
  have mb: "map_preProcess ?bad 0 (heap ?st) = (?V, replicate 20 [])"
    using bad_deck_cleaned by (simp add: start_def)
  have u: "fst (uuidv1 (uuids_issued ?st)) = 0" by (simp add: start_def uuidv1_def)
  have h0: "cardHistory ?st = []" by (simp add: start_def)
  have r: "start = run [] start" by simp
  note t = history_recorded [OF r sb lb mb bad_deck_validated prod.collapse [symmetric],
      unfolded Let_def u h0]
  from t have hist: "cardHistory ?st1 = map (history_entry 0) ?V"
    by simp
  have len: "length ?V = 20" by simp
  from t have e19: "map (history_entry 0) ?V ! 19 =
        \<lparr>deckId = 0, cardId = 19, entry_alphabet = alphabet (?V ! 19),
         entry_number = number (?V ! 19), entry_errors = errors (?V ! 19)\<rparr>"
    by simp
  have v19: "?V ! 19 = \<lparr>id = 19, alphabet = Some (js ''D''), number = Some (Fin 4), errors = Some 19\<rparr>"
    by (simp add: nth_append)
  from t have filt: "filter (\<lambda>e. deckId e = 0) (cardHistory ?st1) = map (history_entry 0) ?V"
    by blast
  from t have heap1: "heap ?st1 = replicate 19 [] @ [[pairing_msg]]" by blast
  from t have later: "take (length (cardHistory ?st1)) (cardHistory (run ?later ?st1)) = cardHistory ?st1"
    "take (length (heap ?st1)) (heap (run ?later ?st1)) = heap ?st1"
    "filter (\<lambda>e. deckId e = 0) (cardHistory (run ?later ?st1)) = map (history_entry 0) ?V"
    by blast+
  have l1: "length (cardHistory ?st1) = 20" using len by (simp only: hist length_map)
  have l2: "length (heap ?st1) = 20" by (simp add: heap1)
  have c1: "length (filter (\<lambda>e. deckId e = 0) (cardHistory ?st1)) = 20"
    using len by (simp only: filt length_map)
  have c2: "cardHistory ?st1 ! 19 =
         \<lparr>deckId = 0, cardId = 19, entry_alphabet = Some (js ''D''),
          entry_number = Some (Fin 4), entry_errors = Some 19\<rparr>"
    unfolding hist e19 v19 by simp
  have c3: "heap ?st1 ! 19 = [pairing_msg]" by (simp add: heap1 nth_append)
  have c4: "length (filter (\<lambda>e. deckId e = 0) (cardHistory (run ?later ?st1))) = 20"
    using len by (simp only: later(3) length_map)
  show ?thesis
    unfolding Let_def using r sb lb l1 c1 c2 c3 later(1,2) [unfolded l1 l2] c4 by (intro conjI)
qed

section \<open>Strings\<close>

lemma isNaN_str_Nil: "\<not> isNaN_str []"
  by (simp add: isNaN_str_def trim_def)

lemma fold_scan_part:
  "fold scan_part ps (a, n) =
     (if not_alphabet a then (case find isNaN_str ps of None \<Rightarrow> a | Some p \<Rightarrow> Some p) else a,
      if n = None then map_option parseInt10 (find (\<lambda>p. \<not> isNaN_str p) ps) else n)"
proof (induction ps arbitrary: a n)
  case Nil
  show ?case by simp
next
  case (Cons p ps)
  show ?case
  proof (cases "isNaN_str p")
    case True
    then have "p \<noteq> []" using isNaN_str_Nil by auto
    then have "\<not> not_alphabet (Some p)" by (simp add: not_alphabet_def)
    with True show ?thesis by (simp add: Cons.IH)
  next
    case False
    then show ?thesis by (simp add: Cons.IH)
  qed
qed

lemma find_filter: "find P xs = (case filter P xs of [] \<Rightarrow> None | x # _ \<Rightarrow> Some x)"
  by (induction xs) simp_all

lemma find_isNaN_not_alphabet:
  "find isNaN_str ps = Some p \<Longrightarrow> \<not> not_alphabet (Some p)"
proof -
  assume "find isNaN_str ps = Some p"
  then have "isNaN_str p" by (auto simp add: find_Some_iff)
  then have "p \<noteq> []" using isNaN_str_Nil by auto
  then show ?thesis by (simp add: not_alphabet_def)
qed

lemma preProcess_JStr_find:
  "preProcess (JStr s) i h =
     (case (find isNaN_str (map trim (split_comma s)),
            find (\<lambda>p. \<not> isNaN_str p) (map trim (split_comma s))) of
        (Some a, Some n) \<Rightarrow>
          (\<lparr>id = i, alphabet = Some a, number = Some (parseInt10 n), errors = Some (length h)\<rparr>,
           h @ [[]])
      | _ \<Rightarrow>
          (\<lparr>id = i, alphabet = None, number = None, errors = Some (length h)\<rparr>,
           h @ [[''Invalid format for input string.'']]))"
proof -
  let ?ps = "map trim (split_comma s)"
  have f: "fold scan_part ?ps (None, None) =
      (find isNaN_str ?ps, map_option parseInt10 (find (\<lambda>p. \<not> isNaN_str p) ?ps))"
    by (simp add: fold_scan_part not_alphabet_def split: option.splits)
  show ?thesis
  proof (cases "find isNaN_str ?ps")
    case None
    then show ?thesis by (simp add: f finish_def new_array_def not_alphabet_def)
  next
    case (Some a)
    from find_isNaN_not_alphabet [OF Some] show ?thesis
      by (cases "find (\<lambda>p. \<not> isNaN_str p) ?ps")
        (simp_all add: f Some finish_def new_array_def)
  qed
qed

text \<open>
  Claim C6. For a string, with \<open>parts\<close> its pieces between commas, each trimmed:
  the letter is the first part for which \<^verbatim>\<open>isNaN\<close> holds and the digit is
  \<^verbatim>\<open>parseInt(part, 10)\<close> of the first part for which it does not; when either is
  missing the card has both fields \<^verbatim>\<open>null\<close> and the string message. Only the
  sequence of non-numeric parts and the sequence of numeric parts matter: two
  strings that differ in how the two are interleaved give the same card.
\<close>

theorem string_first_parts:
  "preProcess (JStr s) i h =
     (case (find isNaN_str (map trim (split_comma s)),
            find (\<lambda>p. \<not> isNaN_str p) (map trim (split_comma s))) of
        (Some a, Some n) \<Rightarrow>
          (\<lparr>id = i, alphabet = Some a, number = Some (parseInt10 n), errors = Some (length h)\<rparr>,
           h @ [[]])
      | _ \<Rightarrow>
          (\<lparr>id = i, alphabet = None, number = None, errors = Some (length h)\<rparr>,
           h @ [[''Invalid format for input string.'']])) \<and>
   (filter isNaN_str (map trim (split_comma s)) = filter isNaN_str (map trim (split_comma s')) \<and>
    filter (\<lambda>p. \<not> isNaN_str p) (map trim (split_comma s)) =
      filter (\<lambda>p. \<not> isNaN_str p) (map trim (split_comma s')) \<longrightarrow>
    preProcess (JStr s) i h = preProcess (JStr s') i h)"
proof -
  have "preProcess (JStr s) i h = preProcess (JStr s') i h"
    if "filter isNaN_str (map trim (split_comma s)) = filter isNaN_str (map trim (split_comma s'))"
      and "filter (\<lambda>p. \<not> isNaN_str p) (map trim (split_comma s)) =
        filter (\<lambda>p. \<not> isNaN_str p) (map trim (split_comma s'))"
    unfolding preProcess_JStr_find find_filter that ..
  then show ?thesis using preProcess_JStr_find by blast
qed

text \<open>\<^verbatim>\<open>"7, Q ,8,R"\<close> and \<^verbatim>\<open>"Q,R,7,8"\<close> both give the letter Q and the digit 7.\<close>

theorem string_first_parts_witness:
  "filter isNaN_str (map trim (split_comma (js ''7, Q ,8,R''))) =
     filter isNaN_str (map trim (split_comma (js ''Q,R,7,8''))) \<and>
   filter (\<lambda>p. \<not> isNaN_str p) (map trim (split_comma (js ''7, Q ,8,R''))) =
     filter (\<lambda>p. \<not> isNaN_str p) (map trim (split_comma (js ''Q,R,7,8''))) \<and>
   preProcess (JStr (js ''7, Q ,8,R'')) 0 [] = preProcess (JStr (js ''Q,R,7,8'')) 0 [] \<and>
   preProcess (JStr (js ''7, Q ,8,R'')) 0 [] =
     (\<lparr>id = 0, alphabet = Some (js ''Q''), number = Some (Fin 7), errors = Some 0\<rparr>, [[]])"
proof -
  have a: "filter isNaN_str (map trim (split_comma (js ''7, Q ,8,R''))) =
     filter isNaN_str (map trim (split_comma (js ''Q,R,7,8'')))"
    by code_simp
  have b: "filter (\<lambda>p. \<not> isNaN_str p) (map trim (split_comma (js ''7, Q ,8,R''))) =
     filter (\<lambda>p. \<not> isNaN_str p) (map trim (split_comma (js ''Q,R,7,8'')))"
    by code_simp
  have c: "preProcess (JStr (js ''Q,R,7,8'')) 0 [] =
     (\<lparr>id = 0, alphabet = Some (js ''Q''), number = Some (Fin 7), errors = Some 0\<rparr>, [[]])"
    by code_simp
  from string_first_parts [of "js ''7, Q ,8,R''" 0 "[]" "js ''Q,R,7,8''"] a b
  have d: "preProcess (JStr (js ''7, Q ,8,R'')) 0 [] = preProcess (JStr (js ''Q,R,7,8'')) 0 []"
    by blast
  show ?thesis using a b c d by (simp only: simp_thms)
qed

subsection \<open>Decimal text\<close>

declare digits_of.simps [simp del]

subsection \<open>Rounding\<close>

text \<open>\<^verbatim>\<open>parseInt\<close> of 2^53 + 1 is 2^53, as in JavaScript.\<close>

lemma parseInt10_rounds:
  "parseInt10 (js ''9007199254740993'') = Fin 9007199254740992"
  by code_simp

declare bitlen.simps [simp del]

lemma bitlen_bounds: "0 < n \<Longrightarrow> 2 ^ (bitlen n - 1) \<le> n \<and> n < 2 ^ bitlen n"
proof (induction n rule: bitlen.induct)
  case (1 n)
  show ?case
  proof (cases "n div 2 \<le> 0")
    case True
    with 1(2) have "n = 1" by auto
    then show ?thesis by (simp add: bitlen.simps [of 1] bitlen.simps [of 0])
  next
    case False
    from 1(2) have n: "\<not> n \<le> 0" by simp
    from False have pos: "0 < n div 2" by simp
    from 1(1) [OF n pos] have a: "2 ^ (bitlen (n div 2) - 1) \<le> n div 2"
      and b: "n div 2 < 2 ^ bitlen (n div 2)" by simp_all
    from False have p: "bitlen (n div 2) \<noteq> 0" by (simp add: bitlen.simps [of "n div 2"])
    then obtain b' where b': "bitlen (n div 2) = Suc b'" by (cases "bitlen (n div 2)") auto
    have bl: "bitlen n = Suc (Suc b')" using n b' by (simp add: bitlen.simps [of n])
    from a b' have "2 * 2 ^ b' \<le> n" by simp
    moreover from b b' have "n < 2 * (2 * 2 ^ b')" by simp
    ultimately show ?thesis by (simp add: bl)
  qed
qed

lemma round_int_exact: "m < 9007199254740992 \<Longrightarrow> round_int m = Fin (of_int m)"
  by (simp add: round_int_def)

lemma number_value_exact: "\<bar>k\<bar> < 9007199254740992 \<Longrightarrow> number_value k = Fin (of_int k)"
  by (simp add: number_value_def round_int_exact)

lemma round_int_large:
  assumes "9007199254740992 \<le> m"
  shows "round_int m = PosInf \<or> (\<exists>v. round_int m = Fin (of_int v) \<and> 9 < v)"
proof -
  define sh where "sh = bitlen m - 53"
  define q where "q = m div 2 ^ sh"
  define q' where "q' = (if 2 ^ (sh - 1) < m mod 2 ^ sh \<or> (m mod 2 ^ sh = 2 ^ (sh - 1) \<and> odd q)
    then q + 1 else q)"
  from assms have pos: "0 < m" by simp
  from bitlen_bounds [OF pos] have lo: "2 ^ (bitlen m - 1) \<le> m" and hi: "m < 2 ^ bitlen m"
    by simp_all
  have "(2::int) ^ 53 \<le> m" using assms by simp
  with hi have h53: "(2::int) ^ 53 < 2 ^ bitlen m" by linarith
  have one: "(1::int) < 2" by simp
  from power_less_imp_less_exp [OF one h53] have bl: "53 < bitlen m" .
  then have e: "bitlen m - 1 = 52 + sh" by (simp add: sh_def)
  from lo have "(2::int) ^ 52 * 2 ^ sh \<le> m" by (simp only: e power_add)
  then have "((2::int) ^ 52 * 2 ^ sh) div 2 ^ sh \<le> m div 2 ^ sh"
    by (rule zdiv_mono1) simp
  then have q: "(2::int) ^ 52 \<le> q" by (simp add: q_def)
  have "q \<le> q'" by (simp add: q'_def)
  with q have q'52: "(2::int) ^ 52 \<le> q'" by linarith
  have "(1::int) \<le> 2 ^ sh" by simp
  with q'52 have "(2::int) ^ 52 * 1 \<le> q' * 2 ^ sh"
    by (intro mult_mono) simp_all
  then have v: "9 < q' * 2 ^ sh" by simp
  have r: "round_int m = (if 2 ^ 1024 \<le> q' * 2 ^ sh then PosInf else Fin (of_int (q' * 2 ^ sh)))"
    using assms by (simp add: round_int_def Let_def sh_def q_def q'_def)
  show ?thesis
  proof (cases "2 ^ 1024 \<le> q' * 2 ^ sh")
    case True
    with r have "round_int m = PosInf" by (simp only: if_True)
    then show ?thesis by (rule disjI1)
  next
    case False
    with r have "round_int m = Fin (of_int (q' * 2 ^ sh))" by (simp only: if_False)
    with v show ?thesis by blast
  qed
qed

lemma digit_char_cases:
  assumes "d < 10"
  shows "digit_char d \<in> {0x30, 0x31, 0x32, 0x33, 0x34, 0x35, 0x36, 0x37, 0x38, 0x39}"
proof -
  from assms have "d \<in> {0, 1, 2, 3, 4, 5, 6, 7, 8, 9}" by auto
  then show ?thesis by (auto simp add: digit_char_def)
qed

lemma is_digit_digit_char: "d < 10 \<Longrightarrow> is_digit (digit_char d)"
  using digit_char_cases [of d] by (auto simp add: is_digit_def)

lemma digit_value_digit_char: "d < 10 \<Longrightarrow> digit_value (digit_char d) = int d"
proof -
  assume "d < 10"
  then have "d \<in> {0, 1, 2, 3, 4, 5, 6, 7, 8, 9}" by auto
  then show ?thesis by (auto simp add: digit_char_def digit_value_def)
qed

lemma is_digit_not:
  assumes "is_digit c"
  shows "\<not> is_ws c" "c \<noteq> 0x2C" "c \<noteq> 0x2B" "c \<noteq> 0x2D" "c \<noteq> 0x2E"
  using assms by (auto simp add: is_digit_def is_ws_def word_le_nat_alt)

lemma digits_value_snoc: "digits_value (ds @ [c]) = 10 * digits_value ds + digit_value c"
  by (simp add: digits_value_def)

lemma digits_of_digits: "list_all is_digit (digits_of n)"
proof (induction n rule: digits_of.induct)
  case (1 n)
  show ?case
  proof (cases "n < 10")
    case True
    then show ?thesis by (simp add: digits_of.simps [of n] is_digit_digit_char)
  next
    case False
    with 1 show ?thesis by (simp add: digits_of.simps [of n] is_digit_digit_char)
  qed
qed

lemma digits_of_nonempty: "digits_of n \<noteq> []"
  by (simp add: digits_of.simps [of n])

lemma digits_value_digits_of: "digits_value (digits_of n) = int n"
proof (induction n rule: digits_of.induct)
  case (1 n)
  show ?case
  proof (cases "n < 10")
    case True
    then show ?thesis
      by (simp add: digits_of.simps [of n] digits_value_def digit_value_digit_char)
  next
    case False
    with 1 have "digits_value (digits_of (n div 10)) = int (n div 10)" by simp
    moreover have "10 * int (n div 10) + int (n mod 10) = int n" by presburger
    ultimately show ?thesis using False
      by (simp add: digits_of.simps [of n] digits_value_snoc digit_value_digit_char)
  qed
qed

lemma digits_value_nonneg: "list_all is_digit ds \<Longrightarrow> 0 \<le> digits_value ds"
proof (induction ds rule: rev_induct)
  case Nil
  show ?case by (simp add: digits_value_def)
next
  case (snoc c ds)
  then have "0 \<le> digits_value ds" and "is_digit c" by simp_all
  moreover from \<open>is_digit c\<close> have "0 \<le> digit_value c"
    by (simp add: is_digit_def digit_value_def word_le_def)
  ultimately show ?case by (simp add: digits_value_snoc)
qed

lemma split_comma_no_comma: "0x2C \<notin> set s \<Longrightarrow> split_comma s = [s]"
  by (induction s) auto

lemma split_comma_append:
  "0x2C \<notin> set l \<Longrightarrow> split_comma (l @ 0x2C # r) = l # split_comma r"
  by (induction l) auto

lemma dropWhile_id: "s \<noteq> [] \<Longrightarrow> \<not> P (hd s) \<Longrightarrow> dropWhile P s = s"
  by (cases s) simp_all

lemma trim_id:
  assumes "s \<noteq> []" and "\<not> is_ws (hd s)" and "\<not> is_ws (last s)"
  shows "trim s = s"
proof -
  have a: "dropWhile is_ws s = s" using assms(1,2) by (rule dropWhile_id)
  have "rev s \<noteq> []" and "\<not> is_ws (hd (rev s))"
    using assms(1,3) by (simp_all add: hd_rev)
  then have "dropWhile is_ws (rev s) = rev s" by (rule dropWhile_id)
  with a show ?thesis by (simp add: trim_def)
qed

lemma digits_no_comma: "list_all is_digit ds \<Longrightarrow> 0x2C \<notin> set ds"
  using is_digit_not(2) by (auto simp add: list_all_iff)

lemma takeWhile_digits:
  "list_all is_digit ds \<Longrightarrow> takeWhile is_digit ds = ds"
  by (simp add: list_all_iff)

lemma dropWhile_digits:
  "list_all is_digit ds \<Longrightarrow> dropWhile is_digit ds = []"
  by (simp add: list_all_iff)

lemma takeWhile_digits_then:
  "list_all is_digit ds \<Longrightarrow> \<not> is_digit c \<Longrightarrow> takeWhile is_digit (ds @ c # r) = ds"
  by (simp add: list_all_iff takeWhile_tail)

lemma dropWhile_digits_then:
  "list_all is_digit ds \<Longrightarrow> \<not> is_digit c \<Longrightarrow> dropWhile is_digit (ds @ c # r) = c # r"
  by (simp add: list_all_iff dropWhile_append3)

lemma dot_not_digit: "\<not> is_digit 0x2E" and dot_not_ws: "\<not> is_ws 0x2E"
  and minus_not_ws: "\<not> is_ws 0x2D" and minus_not_digit: "\<not> is_digit 0x2D"
  by (simp_all add: is_digit_def is_ws_def)

lemma digits_hd_last:
  assumes "ds \<noteq> []" and "list_all is_digit ds"
  shows "is_digit (hd ds)" and "is_digit (last ds)"
  using assms by (simp_all add: list_all_iff)

text \<open>Digits, possibly followed by a point and more digits, are numeric text.\<close>

lemma unsigned_decimal_digits:
  "ds \<noteq> [] \<Longrightarrow> list_all is_digit ds \<Longrightarrow> unsigned_decimal ds"
  by (simp add: unsigned_decimal_def takeWhile_digits dropWhile_digits)

lemma unsigned_decimal_fraction:
  "ip \<noteq> [] \<Longrightarrow> list_all is_digit ip \<Longrightarrow> list_all is_digit fp \<Longrightarrow>
   unsigned_decimal (ip @ 0x2E # fp)"
  by (simp add: unsigned_decimal_def takeWhile_digits_then dropWhile_digits_then
      dot_not_digit takeWhile_digits dropWhile_digits exponent_opt_def)

lemma numeric_digits:
  assumes "ds \<noteq> []" and "list_all is_digit ds"
  shows "trim ds = ds" and "\<not> isNaN_str ds"
proof -
  from digits_hd_last [OF assms] have "\<not> is_ws (hd ds)" "\<not> is_ws (last ds)"
    by (simp_all add: is_digit_not)
  with assms(1) show t: "trim ds = ds" by (simp add: trim_id)
  obtain c r where ds: "ds = c # r" using assms(1) by (cases ds) auto
  with digits_hd_last(1) [OF assms] have "c \<noteq> 0x2B" "c \<noteq> 0x2D"
    by (simp_all add: is_digit_not)
  then have "str_numeric_literal ds"
    using unsigned_decimal_digits [OF assms] by (simp add: str_numeric_literal_def ds)
  then show "\<not> isNaN_str ds" by (simp add: isNaN_str_def t)
qed

lemma numeric_minus_digits:
  assumes "ds \<noteq> []" and "list_all is_digit ds"
  shows "trim (0x2D # ds) = 0x2D # ds" and "\<not> isNaN_str (0x2D # ds)"
proof -
  from digits_hd_last [OF assms] have "\<not> is_ws (last ds)" by (simp add: is_digit_not)
  with assms(1) show t: "trim (0x2D # ds) = 0x2D # ds"
    by (simp add: trim_id minus_not_ws)
  have "str_numeric_literal (0x2D # ds)"
    using unsigned_decimal_digits [OF assms] by (simp add: str_numeric_literal_def)
  then show "\<not> isNaN_str (0x2D # ds)" by (simp add: isNaN_str_def t)
qed

lemma numeric_fraction:
  assumes "ip \<noteq> []" and "list_all is_digit ip" and "list_all is_digit fp"
  shows "trim (ip @ 0x2E # fp) = ip @ 0x2E # fp" and "\<not> isNaN_str (ip @ 0x2E # fp)"
proof -
  let ?t = "ip @ 0x2E # fp"
  from digits_hd_last(1) [OF assms(1,2)] assms(1) have h: "\<not> is_ws (hd ?t)"
    by (simp add: is_digit_not)
  have l: "\<not> is_ws (last ?t)"
  proof (cases "fp = []")
    case True
    then show ?thesis by (simp add: dot_not_ws)
  next
    case False
    with digits_hd_last(2) [OF False assms(3)] show ?thesis by (simp add: is_digit_not)
  qed
  from h l show t: "trim ?t = ?t" by (simp add: trim_id)
  obtain c r where ip: "ip = c # r" using assms(1) by (cases ip) auto
  with digits_hd_last(1) [OF assms(1,2)] have "c \<noteq> 0x2B" "c \<noteq> 0x2D"
    by (simp_all add: is_digit_not)
  then have "str_numeric_literal ?t"
    using unsigned_decimal_fraction [OF assms] by (simp add: str_numeric_literal_def ip)
  then show "\<not> isNaN_str ?t" by (simp add: isNaN_str_def t)
qed

text \<open>What \<^verbatim>\<open>parseInt\<close> reads from them.\<close>

lemma parseInt10_digits_then:
  assumes "ip \<noteq> []" and "list_all is_digit ip" and "r = [] \<or> \<not> is_digit (hd r)"
  shows "parseInt10 (ip @ r) = number_value (digits_value ip)"
proof -
  obtain c t where ip: "ip = c # t" using assms(1) by (cases ip) auto
  from digits_hd_last(1) [OF assms(1,2)] ip
  have c: "\<not> is_ws c" "c \<noteq> 0x2B" "c \<noteq> 0x2D" by (simp_all add: is_digit_not)
  have tw: "takeWhile is_digit (ip @ r) = ip"
  proof (cases r)
    case Nil
    then show ?thesis by (simp add: takeWhile_digits assms(2))
  next
    case (Cons d r')
    with assms(3) have "\<not> is_digit d" by simp
    then show ?thesis by (simp add: Cons takeWhile_digits_then assms(2))
  qed
  have "trim_start (ip @ r) = ip @ r" using c(1) by (simp add: trim_start_def ip)
  then show ?thesis
    using c(2,3) tw assms(1) by (simp add: parseInt10_def Let_def ip)
qed

lemma parseInt10_minus_digits:
  assumes "ds \<noteq> []" and "list_all is_digit ds"
  shows "parseInt10 (0x2D # ds) = number_value (- digits_value ds)"
proof -
  have "trim_start (0x2D # ds) = 0x2D # ds"
    by (simp add: trim_start_def minus_not_ws)
  then show ?thesis
    using assms by (simp add: parseInt10_def Let_def takeWhile_digits)
qed

lemma decimal_cases:
  obtains ds where "ds \<noteq> []" and "list_all is_digit ds"
    and "(decimal n = ds \<and> digits_value ds = n) \<or>
         (decimal n = 0x2D # ds \<and> - digits_value ds = n)"
proof -
  let ?ds = "digits_of (nat \<bar>n\<bar>)"
  have val: "digits_value ?ds = \<bar>n\<bar>" by (simp add: digits_value_digits_of)
  have "(decimal n = ?ds \<and> digits_value ?ds = n) \<or>
         (decimal n = 0x2D # ?ds \<and> - digits_value ?ds = n)"
    using val by (cases "n < 0") (simp_all add: decimal_def abs_if)
  with digits_of_nonempty [of "nat \<bar>n\<bar>"] digits_of_digits [of "nat \<bar>n\<bar>"] that
  show thesis by blast
qed

lemma decimal_numeric:
  "trim (decimal n) = decimal n \<and> \<not> isNaN_str (decimal n) \<and>
   parseInt10 (decimal n) = number_value n \<and> 0x2C \<notin> set (decimal n)"
proof -
  obtain ds where ne: "ds \<noteq> []" and dg: "list_all is_digit ds"
    and d: "(decimal n = ds \<and> digits_value ds = n) \<or>
         (decimal n = 0x2D # ds \<and> - digits_value ds = n)"
    by (rule decimal_cases)
  have nc: "0x2C \<notin> set ds" using dg by (rule digits_no_comma)
  from d show ?thesis
  proof
    assume "decimal n = ds \<and> digits_value ds = n"
    then show ?thesis
      using numeric_digits [OF ne dg] parseInt10_digits_then [OF ne dg, of "[]"] nc
      by simp
  next
    assume "decimal n = 0x2D # ds \<and> - digits_value ds = n"
    then show ?thesis
      using numeric_minus_digits [OF ne dg] parseInt10_minus_digits [OF ne dg] nc
      by simp
  qed
qed

subsection \<open>Fractions in a string\<close>

lemma preProcess_letter_number:
  assumes "isNaN_str l" and "trim l = l" and "0x2C \<notin> set l"
    and "\<not> isNaN_str t" and "trim t = t" and "0x2C \<notin> set t"
  shows "preProcess (JStr (l @ 0x2C # t)) i h =
      (\<lparr>id = i, alphabet = Some l, number = Some (parseInt10 t), errors = Some (length h)\<rparr>,
       h @ [[]])"
    and "preProcess (JStr (t @ 0x2C # l)) i h =
      (\<lparr>id = i, alphabet = Some l, number = Some (parseInt10 t), errors = Some (length h)\<rparr>,
       h @ [[]])"
proof -
  have "map trim (split_comma (l @ 0x2C # t)) = [l, t]"
    using assms by (simp add: split_comma_append split_comma_no_comma)
  then show "preProcess (JStr (l @ 0x2C # t)) i h =
      (\<lparr>id = i, alphabet = Some l, number = Some (parseInt10 t), errors = Some (length h)\<rparr>,
       h @ [[]])"
    using assms(1,4) by (simp only: preProcess_JStr_find) simp
  have "map trim (split_comma (t @ 0x2C # l)) = [t, l]"
    using assms by (simp add: split_comma_append split_comma_no_comma)
  then show "preProcess (JStr (t @ 0x2C # l)) i h =
      (\<lparr>id = i, alphabet = Some l, number = Some (parseInt10 t), errors = Some (length h)\<rparr>,
       h @ [[]])"
    using assms(1,4) by (simp only: preProcess_JStr_find) simp
qed

lemma process_found:
  assumes "preProcess v i h = (c, h @ [[]])" and "alphabet c \<noteq> None"
  shows "process v i h = (c, h @ [violations c])"
proof -
  from preProcess_cases [OF assms(1)] have e: "errors c = Some (length h)" by simp
  have r: "length h < length (h @ [[]])" by simp
  have ne: "\<not> (alphabet c = None \<and> number c = None)" using assms(2) by simp
  from validate_card_run [OF e r ne] show ?thesis
    by (simp add: process_def assms(1))
qed

lemma number_invalid_int:
  "number_invalid (Some (Fin (of_int k))) \<longleftrightarrow> k < 0 \<or> 9 < k"
  by (auto simp add: number_invalid_def)

lemma number_invalid_value:
  assumes "0 \<le> k"
  shows "number_invalid (Some (number_value k)) \<longleftrightarrow> 9 < k"
proof (cases "k < 9007199254740992")
  case True
  with assms have "number_value k = Fin (of_int k)" by (simp add: number_value_exact)
  with assms show ?thesis by (simp add: number_invalid_int)
next
  case False
  with assms have nv: "number_value k = round_int k" by (simp add: number_value_def)
  from False round_int_large [of k]
  have "round_int k = PosInf \<or> (\<exists>v. round_int k = Fin (of_int v) \<and> 9 < v)" by simp
  then have "number_invalid (Some (round_int k))"
    by (auto simp add: number_invalid_def)
  with False show ?thesis by (simp add: nv)
qed

lemma isNaN_letter: "0x41 \<le> ch \<Longrightarrow> ch \<le> 0x5A \<Longrightarrow> isNaN_str [ch] \<and> trim [ch] = [ch] \<and> 0x2C \<notin> set [ch]"
proof -
  assume a: "0x41 \<le> ch" "ch \<le> 0x5A"
  then have ws: "\<not> is_ws ch" and dg: "\<not> is_digit ch"
    and ne: "ch \<noteq> 0x2B" "ch \<noteq> 0x2D" "ch \<noteq> 0x2E" "ch \<noteq> 0x2C"
    by (auto simp add: is_ws_def is_digit_def word_le_nat_alt)
  have t: "trim [ch] = [ch]" using ws by (simp add: trim_id)
  have "\<not> str_numeric_literal [ch]"
    using dg ne by (simp add: str_numeric_literal_def non_decimal_def unsigned_decimal_def js_def)
  then show ?thesis using t ne by (simp add: isNaN_str_def)
qed

text \<open>
  Claim C10, amended. Take any string with a part that is not numeric and whose first
  numeric part, after trimming, is \<^verbatim>\<open>ip.fp\<close>: at least one digit \<open>ip\<close>, a point and
  digits \<open>fp\<close>; the parts may come in any order and with white space around them.
  Both steps give the card whose letter is the first part that is not numeric and
  whose digit is what \<^verbatim>\<open>parseInt\<close> reads from \<open>ip\<close> alone: the number value of the
  integer \<open>ip\<close>, which is that integer below \<open>2 ^ 53\<close>. The digit message is there
  exactly when \<open>ip\<close> is above 9, and there is no message at all when the letter is
  one of \<^verbatim>\<open>A\<close>-\<^verbatim>\<open>Z\<close>, \<open>ip\<close> is at most 9 and \<^verbatim>\<open>D\<close> comes with 3.
\<close>

theorem fraction_dropped:
  assumes "find isNaN_str (map trim (split_comma s)) = Some l"
    and "find (\<lambda>p. \<not> isNaN_str p) (map trim (split_comma s)) = Some (ip @ 0x2E # fp)"
    and "ip \<noteq> []" and "list_all is_digit ip" and "list_all is_digit fp"
  shows "(let c = \<lparr>id = i, alphabet = Some l, number = Some (number_value (digits_value ip)),
                  errors = Some (length h)\<rparr>
     in process (JStr s) i h = (c, h @ [violations c]) \<and>
        parseInt10 ip = number_value (digits_value ip) \<and>
        (digits_value ip < 9007199254740992 \<longrightarrow>
           number_value (digits_value ip) = Fin (of_int (digits_value ip))) \<and>
        (digit_msg \<in> set (violations c) \<longleftrightarrow> 9 < digits_value ip) \<and>
        ((\<exists>ch. l = [ch] \<and> 0x41 \<le> ch \<and> ch \<le> 0x5A \<and> (ch = 0x44 \<longrightarrow> digits_value ip = 3)) \<and>
         digits_value ip \<le> 9 \<longrightarrow> violations c = []))"
proof -
  let ?k = "digits_value ip"
  let ?c = "\<lparr>id = i, alphabet = Some l, number = Some (number_value ?k),
                  errors = Some (length h)\<rparr>"
  let ?t = "ip @ 0x2E # fp"
  have nn: "0 \<le> ?k" using assms(4) by (rule digits_value_nonneg)
  have hd: "0x2E # fp = [] \<or> \<not> is_digit (hd (0x2E # fp))" by (simp add: dot_not_digit)
  have pt: "parseInt10 ?t = number_value ?k"
    using parseInt10_digits_then [OF assms(3,4) hd] .
  have pu: "parseInt10 ip = number_value ?k"
    using parseInt10_digits_then [OF assms(3,4), of "[]"] by simp
  have p: "preProcess (JStr s) i h = (?c, h @ [[]])"
    unfolding preProcess_JStr_find assms(1,2) by (simp add: pt)
  have a: "process (JStr s) i h = (?c, h @ [violations ?c])"
    using p by (rule process_found) simp
  have x: "number_value ?k = Fin (of_int ?k)" if "?k < 9007199254740992"
    using that nn by (simp add: number_value_exact)
  have d: "digit_msg \<in> set (violations ?c) \<longleftrightarrow> 9 < ?k"
    using nn by (simp add: set_violations number_invalid_value)
  have e: "violations ?c = []"
    if "\<exists>ch. l = [ch] \<and> 0x41 \<le> ch \<and> ch \<le> 0x5A \<and> (ch = 0x44 \<longrightarrow> ?k = 3)"
      and "?k \<le> 9"
  proof -
    from that(1) obtain ch where ch: "l = [ch]" "0x41 \<le> ch" "ch \<le> 0x5A"
      "ch = 0x44 \<longrightarrow> ?k = 3" by blast
    from that(2) have v: "number_value ?k = Fin (of_int ?k)" by (simp add: x)
    have "\<not> alphabet_invalid (Some l)"
      using ch(1-3) by (simp add: alphabet_invalid_iff)
    moreover have "\<not> number_invalid (Some (number_value ?k))"
      using nn that(2) by (simp add: number_invalid_value)
    moreover have "\<not> pairing_invalid (Some l) (Some (number_value ?k))"
      using ch(1,4) by (auto simp add: pairing_invalid_def js_def v)
    ultimately show ?thesis by (simp add: violations_def)
  qed
  show ?thesis unfolding Let_def using a pu x d e by blast
qed

text \<open>
  \<^verbatim>\<open>"A,2.7"\<close> and \<^verbatim>\<open>" 2.7 , A"\<close> are the card A, 2 without any message.
\<close>

theorem fraction_dropped_witness:
  "find isNaN_str (map trim (split_comma (js ''A,2.7''))) = Some (js ''A'') \<and>
   find (\<lambda>p. \<not> isNaN_str p) (map trim (split_comma (js ''A,2.7''))) =
     Some (js ''2'' @ 0x2E # js ''7'') \<and>
   find isNaN_str (map trim (split_comma (js '' 2.7 , A''))) = Some (js ''A'') \<and>
   find (\<lambda>p. \<not> isNaN_str p) (map trim (split_comma (js '' 2.7 , A''))) =
     Some (js ''2'' @ 0x2E # js ''7'') \<and>
   js ''2'' \<noteq> [] \<and> list_all is_digit (js ''2'') \<and> list_all is_digit (js ''7'') \<and>
   process (JStr (js ''A,2.7'')) 0 [] =
     (\<lparr>id = 0, alphabet = Some (js ''A''), number = Some (Fin 2), errors = Some 0\<rparr>, [[]]) \<and>
   process (JStr (js '' 2.7 , A'')) 0 [] =
     (\<lparr>id = 0, alphabet = Some (js ''A''), number = Some (Fin 2), errors = Some 0\<rparr>, [[]])"
proof -
  have f1: "find isNaN_str (map trim (split_comma (js ''A,2.7''))) = Some (js ''A'')"
    by code_simp
  have f2: "find (\<lambda>p. \<not> isNaN_str p) (map trim (split_comma (js ''A,2.7''))) =
     Some (js ''2'' @ 0x2E # js ''7'')"
    by code_simp
  have g1: "find isNaN_str (map trim (split_comma (js '' 2.7 , A''))) = Some (js ''A'')"
    by code_simp
  have g2: "find (\<lambda>p. \<not> isNaN_str p) (map trim (split_comma (js '' 2.7 , A''))) =
     Some (js ''2'' @ 0x2E # js ''7'')"
    by code_simp
  have d: "js ''2'' \<noteq> []" "list_all is_digit (js ''2'')" "list_all is_digit (js ''7'')"
    by (simp_all add: js_def is_digit_def)
  have v: "digits_value (js ''2'') = 2" by (simp add: js_def digits_value_def digit_value_def)
  have ok: "(\<exists>ch. js ''A'' = [ch] \<and> 0x41 \<le> ch \<and> ch \<le> 0x5A \<and>
       (ch = 0x44 \<longrightarrow> digits_value (js ''2'') = 3)) \<and> digits_value (js ''2'') \<le> 9"
    using v by (simp add: js_def)
  have small: "digits_value (js ''2'') < 9007199254740992" by (simp add: v)
  note t = fraction_dropped [OF f1 f2 d, of 0 "[]", unfolded Let_def]
  note u = fraction_dropped [OF g1 g2 d, of 0 "[]", unfolded Let_def]
  have n: "number_value (digits_value (js ''2'')) = Fin 2"
    using t [THEN conjunct2, THEN conjunct2, THEN conjunct1] small by (simp add: v)
  have e: "violations \<lparr>id = 0, alphabet = Some (js ''A''),
      number = Some (number_value (digits_value (js ''2''))),
      errors = Some (length ([] :: store))\<rparr> = []"
    using t [THEN conjunct2, THEN conjunct2, THEN conjunct2, THEN conjunct2] ok by (rule mp)
  have p1: "process (JStr (js ''A,2.7'')) 0 [] =
     (\<lparr>id = 0, alphabet = Some (js ''A''), number = Some (Fin 2), errors = Some 0\<rparr>, [[]])"
    using t [THEN conjunct1] e n by simp
  have p2: "process (JStr (js '' 2.7 , A'')) 0 [] =
     (\<lparr>id = 0, alphabet = Some (js ''A''), number = Some (Fin 2), errors = Some 0\<rparr>, [[]])"
    using u [THEN conjunct1] e n by simp
  from f1 f2 g1 g2 d p1 p2 show ?thesis by (intro conjI)
qed

text \<open>
  Claim C10 as stated fails: \<^verbatim>\<open>.5\<close> and \<^verbatim>\<open>27e-1\<close> are numeric text with a fractional
  value (0.5 and 2.7), but \<^verbatim>\<open>parseInt\<close> reads \<^verbatim>\<open>NaN\<close> from the first and 27 from
  the second, and the validator reports the digit message for both.
\<close>

theorem fraction_rejected_counterexample:
  "\<not> isNaN_str (js ''.5'') \<and>
   process (JStr (js ''A,.5'')) 0 [] =
     (\<lparr>id = 0, alphabet = Some (js ''A''), number = Some NaN, errors = Some 0\<rparr>, [[digit_msg]]) \<and>
   \<not> isNaN_str (js ''27e-1'') \<and>
   process (JStr (js ''A,27e-1'')) 0 [] =
     (\<lparr>id = 0, alphabet = Some (js ''A''), number = Some (Fin 27), errors = Some 0\<rparr>, [[digit_msg]])"
  by code_simp

section \<open>The three shapes\<close>

lemma preProcess_pair:
  assumes "l \<noteq> []"
  shows "preProcess (JArr [JStr l, JNum x]) i h =
      (\<lparr>id = i, alphabet = Some l, number = Some x, errors = Some (length h)\<rparr>, h @ [[]])"
    and "preProcess (JArr [JNum x, JStr l]) i h =
      (\<lparr>id = i, alphabet = Some l, number = Some x, errors = Some (length h)\<rparr>, h @ [[]])"
    and "preProcess (JObj [(k1, JStr l), (k2, JNum x)]) i h =
      (\<lparr>id = i, alphabet = Some l, number = Some x, errors = Some (length h)\<rparr>, h @ [[]])"
    and "preProcess (JObj [(k1, JNum x), (k2, JStr l)]) i h =
      (\<lparr>id = i, alphabet = Some l, number = Some x, errors = Some (length h)\<rparr>, h @ [[]])"
  using assms by (simp_all add: finish_def new_array_def not_alphabet_def)

text \<open>
  Claim C3, amended. For a letter text \<open>l\<close> that is not numeric, has no comma and no
  white space at its ends, and an integer \<open>n\<close> of magnitude below \<open>2 ^ 53\<close>, where a
  double holds every integer exactly: the strings \<^verbatim>\<open>l,n\<close> and \<^verbatim>\<open>n,l\<close> (with \<open>n\<close> in
  decimal), the arrays \<^verbatim>\<open>[l, n]\<close> and \<^verbatim>\<open>[n, l]\<close> and the records with the two
  values in either order, under any keys, all normalize to the same card with letter
  \<open>l\<close> and digit \<open>n\<close> and no parse error.
\<close>

theorem shapes_agree:
  assumes "isNaN_str l" and "trim l = l" and "0x2C \<notin> set l"
    and "\<bar>n\<bar> < 9007199254740992"
  shows "(let c = \<lparr>id = i, alphabet = Some l, number = Some (Fin (of_int n)),
                  errors = Some (length h)\<rparr>;
           x = JNum (Fin (of_int n))
     in preProcess (JStr (l @ 0x2C # decimal n)) i h = (c, h @ [[]]) \<and>
        preProcess (JStr (decimal n @ 0x2C # l)) i h = (c, h @ [[]]) \<and>
        preProcess (JArr [JStr l, x]) i h = (c, h @ [[]]) \<and>
        preProcess (JArr [x, JStr l]) i h = (c, h @ [[]]) \<and>
        preProcess (JObj [(k1, JStr l), (k2, x)]) i h = (c, h @ [[]]) \<and>
        preProcess (JObj [(k1, x), (k2, JStr l)]) i h = (c, h @ [[]]))"
proof -
  from assms(1) have ne: "l \<noteq> []" using isNaN_str_Nil by auto
  from decimal_numeric [of n]
  have d: "\<not> isNaN_str (decimal n)" "trim (decimal n) = decimal n" "0x2C \<notin> set (decimal n)"
    and "parseInt10 (decimal n) = number_value n" by simp_all
  with assms(4) have p: "parseInt10 (decimal n) = Fin (of_int n)"
    by (simp add: number_value_exact)
  show ?thesis
    unfolding Let_def
    using preProcess_letter_number [OF assms(1-3) d, of i h]
      preProcess_pair [OF ne, where x = "Fin (of_int n)" and i = i and h = h]
    by (simp only: p simp_thms)
qed

text \<open>The pair D, 3 in four of its forms.\<close>

theorem shapes_agree_witness:
  "isNaN_str (js ''D'') \<and> trim (js ''D'') = js ''D'' \<and> 0x2C \<notin> set (js ''D'') \<and>
   \<bar>3 :: int\<bar> < 9007199254740992 \<and>
   preProcess (JStr (js ''D,3'')) 0 [] =
     (\<lparr>id = 0, alphabet = Some (js ''D''), number = Some (Fin 3), errors = Some 0\<rparr>, [[]]) \<and>
   preProcess (JStr (js ''3,D'')) 0 [] =
     (\<lparr>id = 0, alphabet = Some (js ''D''), number = Some (Fin 3), errors = Some 0\<rparr>, [[]]) \<and>
   preProcess (JArr [JNum (Fin 3), JStr (js ''D'')]) 0 [] =
     (\<lparr>id = 0, alphabet = Some (js ''D''), number = Some (Fin 3), errors = Some 0\<rparr>, [[]]) \<and>
   preProcess (JObj [(js ''sideB'', JNum (Fin 3)), (js ''sideA'', JStr (js ''D''))]) 0 [] =
     (\<lparr>id = 0, alphabet = Some (js ''D''), number = Some (Fin 3), errors = Some 0\<rparr>, [[]])"
proof -
  have l: "isNaN_str (js ''D'')" "trim (js ''D'') = js ''D''" "0x2C \<notin> set (js ''D'')"
    using isNaN_letter [of "0x44"] by (simp_all add: js_def)
  have n: "\<bar>3 :: int\<bar> < 9007199254740992" by simp
  have dec: "decimal 3 = js ''3''"
    by (simp add: decimal_def digits_of.simps digit_char_def js_def)
  note t = shapes_agree [OF l n, of 0 "[]" "js ''sideB''" "js ''sideA''", unfolded Let_def dec]
  have a: "preProcess (JStr (js ''D,3'')) 0 [] =
     (\<lparr>id = 0, alphabet = Some (js ''D''), number = Some (Fin 3), errors = Some 0\<rparr>, [[]])"
    using t [THEN conjunct1] by (simp add: js_def)
  have b: "preProcess (JStr (js ''3,D'')) 0 [] =
     (\<lparr>id = 0, alphabet = Some (js ''D''), number = Some (Fin 3), errors = Some 0\<rparr>, [[]])"
    using t [THEN conjunct2, THEN conjunct1] by (simp add: js_def)
  have c: "preProcess (JArr [JNum (Fin 3), JStr (js ''D'')]) 0 [] =
     (\<lparr>id = 0, alphabet = Some (js ''D''), number = Some (Fin 3), errors = Some 0\<rparr>, [[]])"
    using t [THEN conjunct2, THEN conjunct2, THEN conjunct2, THEN conjunct1] by (simp add: js_def)
  have d: "preProcess (JObj [(js ''sideB'', JNum (Fin 3)), (js ''sideA'', JStr (js ''D''))]) 0 [] =
     (\<lparr>id = 0, alphabet = Some (js ''D''), number = Some (Fin 3), errors = Some 0\<rparr>, [[]])"
    using t [THEN conjunct2, THEN conjunct2, THEN conjunct2, THEN conjunct2, THEN conjunct2]
    by (simp add: js_def)
  from l n a b c d show ?thesis by (intro conjI)
qed

text \<open>
  Claim C3 as stated fails. The letter \<^verbatim>\<open>"5"\<close> with digit 3 is found in the array
  but not in the string \<^verbatim>\<open>"5,3"\<close>, whose two parts are both numeric; the digit 2.7
  is kept by the array and cut to 2 in the string \<^verbatim>\<open>"A,2.7"\<close>.
\<close>

theorem shapes_differ_counterexample:
  "preProcess (JArr [JStr (js ''5''), JNum (Fin 3)]) 0 [] =
     (\<lparr>id = 0, alphabet = Some (js ''5''), number = Some (Fin 3), errors = Some 0\<rparr>, [[]]) \<and>
   preProcess (JStr (js ''5,3'')) 0 [] =
     (\<lparr>id = 0, alphabet = None, number = None, errors = Some 0\<rparr>,
      [[''Invalid format for input string.'']]) \<and>
   preProcess (JArr [JStr (js ''A''), JNum (Fin (27 / 10))]) 0 [] =
     (\<lparr>id = 0, alphabet = Some (js ''A''), number = Some (Fin (27 / 10)), errors = Some 0\<rparr>, [[]]) \<and>
   preProcess (JStr (js ''A,2.7'')) 0 [] =
     (\<lparr>id = 0, alphabet = Some (js ''A''), number = Some (Fin 2), errors = Some 0\<rparr>, [[]])"
  by code_simp

section \<open>Running the pipeline twice\<close>

lemma violations_cong:
  "alphabet c = alphabet c' \<Longrightarrow> number c = number c' \<Longrightarrow> violations c = violations c'"
  by (simp add: violations_def)

lemma process_failed:
  assumes "preProcess v i h = (c, h @ [[msg]])" and "alphabet c = None" and "number c = None"
  shows "process v i h = (c, h @ [[msg]])" and "card_errors (process v i h) = [msg]"
proof -
  show p: "process v i h = (c, h @ [[msg]])"
    using assms by (simp add: process_def validate_card_skip)
  from preProcess_cases [OF assms(1)] have "errors c = Some (length h)" by simp
  then show "card_errors (process v i h) = [msg]" by (simp add: p card_errors_def)
qed

lemma card_errors_found:
  assumes "preProcess v i h = (c, h @ [[]])" and "alphabet c \<noteq> None"
  shows "card_errors (process v i h) = violations c" and "fst (process v i h) = c"
proof -
  from preProcess_cases [OF assms(1)] have "errors c = Some (length h)" by simp
  then show "card_errors (process v i h) = violations c" "fst (process v i h) = c"
    by (simp_all add: process_found [OF assms] card_errors_def)
qed

lemma feed_back_failed:
  assumes "alphabet c = None" and "number c = None"
  shows "card_errors (process (feed_back k1 k2 c) i h) = [''Invalid format for input object.'']"
proof -
  have "preProcess (feed_back k1 k2 c) i h =
      (\<lparr>id = i, alphabet = None, number = None, errors = Some (length h)\<rparr>,
       h @ [[''Invalid format for input object.'']])"
    using assms by (simp add: feed_back_def finish_def new_array_def not_alphabet_def)
  then show ?thesis by (rule process_failed(2)) simp_all
qed

lemma feed_back_found:
  assumes "alphabet c = Some s" and "s \<noteq> []" and "number c = Some x"
  shows "card_errors (process (feed_back k1 k2 c) i h) = violations c"
    and "alphabet (fst (process (feed_back k1 k2 c) i h)) = alphabet c"
    and "number (fst (process (feed_back k1 k2 c) i h)) = number c"
proof -
  let ?c2 = "\<lparr>id = i, alphabet = Some s, number = Some x, errors = Some (length h)\<rparr>"
  have p: "preProcess (feed_back k1 k2 c) i h = (?c2, h @ [[]])"
    using assms preProcess_pair(3) [OF assms(2)] by (simp add: feed_back_def)
  have "violations ?c2 = violations c" using assms by (simp add: violations_cong)
  with card_errors_found [OF p] assms
  show "card_errors (process (feed_back k1 k2 c) i h) = violations c"
    and "alphabet (fst (process (feed_back k1 k2 c) i h)) = alphabet c"
    and "number (fst (process (feed_back k1 k2 c) i h)) = number c"
    by simp_all
qed

lemma failure_msg:
  assumes "preProcess v i h = (c, h1)" and "alphabet c = None"
  shows "(\<exists>ps. v = JObj ps) \<and> h1 = h @ [[''Invalid format for input object.'']] \<or>
     (\<nexists>ps. v = JObj ps) \<and> (\<exists>msg. msg \<noteq> ''Invalid format for input object.'' \<and> h1 = h @ [[msg]])"
proof -
  have other: "(\<nexists>ps. v = JObj ps) \<and>
      (\<exists>msg. msg \<noteq> ''Invalid format for input object.'' \<and> h1 = h @ [[msg]])"
    if "\<nexists>ps. v = JObj ps" and "h1 = h @ [[m]]" and "m \<noteq> ''Invalid format for input object.''"
    for m
    using that by blast
  show ?thesis
  proof (cases v)
    case (JStr s)
    with assms obtain f where "finish i ''Invalid format for input string.'' f h = (c, h1)"
      by simp
    from finish_cases [OF this] assms(2)
    have "h1 = h @ [[''Invalid format for input string.'']]" by simp
    with JStr other [of "''Invalid format for input string.''"] show ?thesis by simp
  next
    case (JArr xs)
    with assms obtain f where "finish i ''Invalid format for input array.'' f h = (c, h1)"
      by simp
    from finish_cases [OF this] assms(2)
    have "h1 = h @ [[''Invalid format for input array.'']]" by simp
    with JArr other [of "''Invalid format for input array.''"] show ?thesis by simp
  next
    case (JObj ps)
    with assms obtain f where "finish i ''Invalid format for input object.'' f h = (c, h1)"
      by simp
    from finish_cases [OF this] assms(2)
    have "h1 = h @ [[''Invalid format for input object.'']]" by simp
    with JObj show ?thesis by simp
  next
    case JNull
    with assms have "h1 = h @ [[''Unknown input type and format.'']]"
      by (auto simp add: new_array_def)
    with JNull other [of "''Unknown input type and format.''"] show ?thesis by simp
  next
    case (JBool b)
    with assms have "h1 = h @ [[''Unknown input type and format.'']]"
      by (auto simp add: new_array_def)
    with JBool other [of "''Unknown input type and format.''"] show ?thesis by simp
  next
    case (JNum x)
    with assms have "h1 = h @ [[''Unknown input type and format.'']]"
      by (auto simp add: new_array_def)
    with JNum other [of "''Unknown input type and format.''"] show ?thesis by simp
  qed
qed

text \<open>
  Claim C8, amended. Run both steps on any raw card, feed the letter and digit of the
  result back as a record and run both steps again. If the first run found a letter
  and a digit, the second run finds the same two and ends with the same list of
  messages. If it did not, the second run ends with the record's parse message alone,
  which is the first run's list exactly when the raw card was a record itself.
\<close>

theorem rerun_errors:
  "(let first = process v i h;
        second = process (feed_back k1 k2 (fst first)) i' h'
    in (alphabet (fst first) \<noteq> None \<longrightarrow>
          card_errors second = card_errors first \<and>
          alphabet (fst second) = alphabet (fst first) \<and>
          number (fst second) = number (fst first)) \<and>
       (alphabet (fst first) = None \<longrightarrow>
          card_errors second = [''Invalid format for input object.''] \<and>
          (card_errors second = card_errors first \<longleftrightarrow> (\<exists>ps. v = JObj ps))))"
proof -
  obtain c h1 where p: "preProcess v i h = (c, h1)" by (cases "preProcess v i h")
  note pc = preProcess_cases [OF p]
  show ?thesis
  proof (cases "alphabet c")
    case None
    with pc have n: "number c = None" by auto
    from failure_msg [OF p None] obtain msg where h1: "h1 = h @ [[msg]]"
      and m: "msg = ''Invalid format for input object.'' \<longleftrightarrow> (\<exists>ps. v = JObj ps)"
      by auto
    from process_failed [OF p [unfolded h1] None n]
    have f: "fst (process v i h) = c" "card_errors (process v i h) = [msg]" by simp_all
    from feed_back_failed [OF None n]
    have s: "card_errors (process (feed_back k1 k2 c) i' h') = [''Invalid format for input object.'']" .
    have "[''Invalid format for input object.''] = [msg] \<longleftrightarrow> (\<exists>ps. v = JObj ps)"
      using m by (simp only: list.inject simp_thms) metis
    then show ?thesis unfolding Let_def f s using None by simp
  next
    case (Some s)
    with pc obtain x where ne: "s \<noteq> []" and x: "number c = Some x" and h1: "h1 = h @ [[]]"
      by auto
    have a: "alphabet c \<noteq> None" using Some by simp
    from card_errors_found [OF p [unfolded h1] a]
    have f: "fst (process v i h) = c" "card_errors (process v i h) = violations c" by simp_all
    show ?thesis
      unfolding Let_def f using Some feed_back_found [OF Some ne x, of k1 k2 i' h'] by simp
  qed
qed

text \<open>
  \<^verbatim>\<open>"d, 44"\<close> has the letter and the digit message in both runs; the record
  \<^verbatim>\<open>{ sideA: null }\<close> has the record's parse message in both.
\<close>

theorem rerun_errors_witness:
  "alphabet (fst (process (JStr (js ''d, 44'')) 0 [])) \<noteq> None \<and>
   card_errors (process (JStr (js ''d, 44'')) 0 []) = [letter_msg, digit_msg] \<and>
   card_errors (process (feed_back (js ''alphabet'') (js ''number'')
       (fst (process (JStr (js ''d, 44'')) 0 []))) 0 []) = [letter_msg, digit_msg] \<and>
   alphabet (fst (process (JObj [(js ''sideA'', JNull)]) 0 [])) = None \<and>
   card_errors (process (feed_back (js ''alphabet'') (js ''number'')
       (fst (process (JObj [(js ''sideA'', JNull)]) 0 []))) 0 []) =
     [''Invalid format for input object.''] \<and>
   card_errors (process (feed_back (js ''alphabet'') (js ''number'')
       (fst (process (JObj [(js ''sideA'', JNull)]) 0 []))) 0 []) =
     card_errors (process (JObj [(js ''sideA'', JNull)]) 0 [])"
proof -
  have a: "alphabet (fst (process (JStr (js ''d, 44'')) 0 [])) \<noteq> None" by code_simp
  have b: "card_errors (process (JStr (js ''d, 44'')) 0 []) = [letter_msg, digit_msg]"
    by code_simp
  from rerun_errors [of "JStr (js ''d, 44'')" 0 "[]" "js ''alphabet''" "js ''number''" 0 "[]",
      unfolded Let_def, THEN conjunct1, THEN mp, OF a, THEN conjunct1]
  have c: "card_errors (process (feed_back (js ''alphabet'') (js ''number'')
       (fst (process (JStr (js ''d, 44'')) 0 []))) 0 []) = [letter_msg, digit_msg]"
    by (simp only: b)
  have d: "alphabet (fst (process (JObj [(js ''sideA'', JNull)]) 0 [])) = None" by code_simp
  note t = rerun_errors [of "JObj [(js ''sideA'', JNull)]" 0 "[]" "js ''alphabet''" "js ''number''" 0 "[]",
      unfolded Let_def, THEN conjunct2, THEN mp, OF d]
  have e: "\<exists>ps. JObj [(js ''sideA'', JNull)] = JObj ps" by simp
  from t [THEN conjunct2] e
  have f: "card_errors (process (feed_back (js ''alphabet'') (js ''number'')
       (fst (process (JObj [(js ''sideA'', JNull)]) 0 []))) 0 []) =
     card_errors (process (JObj [(js ''sideA'', JNull)]) 0 [])"
    by (rule iffD2)
  from a b c d t [THEN conjunct1] f show ?thesis by (intro conjI)
qed

text \<open>
  Claim C8 as stated fails on \<^verbatim>\<open>"Test"\<close>: the first run ends with the string's parse
  message, the second with the record's.
\<close>

theorem rerun_errors_counterexample:
  "card_errors (process (JStr (js ''Test'')) 0 []) = [''Invalid format for input string.''] \<and>
   card_errors (process (feed_back (js ''alphabet'') (js ''number'')
       (fst (process (JStr (js ''Test'')) 0 []))) 0 []) = [''Invalid format for input object.''] \<and>
   set (card_errors (process (JStr (js ''Test'')) 0 [])) \<noteq>
   set (card_errors (process (feed_back (js ''alphabet'') (js ''number'')
       (fst (process (JStr (js ''Test'')) 0 []))) 0 []))"
proof -
  have a: "card_errors (process (JStr (js ''Test'')) 0 []) = [''Invalid format for input string.'']"
    by code_simp
  have b: "card_errors (process (feed_back (js ''alphabet'') (js ''number'')
       (fst (process (JStr (js ''Test'')) 0 []))) 0 []) = [''Invalid format for input object.'']"
    by code_simp
  have "''Invalid format for input string.'' \<in> set (card_errors (process (JStr (js ''Test'')) 0 []))"
    unfolding a by simp
  moreover have "''Invalid format for input string.'' \<notin>
      set (card_errors (process (feed_back (js ''alphabet'') (js ''number'')
       (fst (process (JStr (js ''Test'')) 0 []))) 0 []))"
    unfolding b by simp
  ultimately have "set (card_errors (process (JStr (js ''Test'')) 0 [])) \<noteq>
     set (card_errors (process (feed_back (js ''alphabet'') (js ''number'')
       (fst (process (JStr (js ''Test'')) 0 []))) 0 []))"
    by blast
  with a b show ?thesis by (intro conjI)
qed

end
